theory Spec2Isabelle
  imports Complex_Main
begin

section \<open>The LRC parser and the current-line lookup (utils/lrc-parser)\<close>

text \<open>
  The module exports two functions: \<open>parseLrc\<close>, which turns the text of an LRC lyrics file
  into an array of \<open>LrcLine\<close> objects, and \<open>getCurrentLine\<close>, which finds the active line
  for a playback time.  Both are embedded here as HOL functions that follow the TypeScript
  statement by statement.

  \<^item> A JavaScript string is a sequence of UTF-16 code units.  The lyrics of this repository are
    Japanese, so a string is modelled as a list of code units (natural numbers), not as a list
    of 8-bit characters.  \<open>js\<close> turns an ASCII literal into such a list.
  \<^item> A JavaScript \<open>number\<close> is an IEEE 754 double.  A finite double is kept as the rational
    it denotes, next to \<open>NaN\<close> and the two infinities, and every conversion and arithmetic
    operation rounds its exact result to the nearest double, ties to even, with overflow to an
    infinity and gradual underflow (\<open>round_double\<close>).  Only the sign of zero is not modelled.
  \<^item> None of the string, regular-expression and array methods used by the module throws on a
    string argument, so the embedding has no error value: each function is total.
\<close>

subsection \<open>Strings\<close>

type_synonym code_unit = nat
type_synonym jsstring = "code_unit list"

definition js :: "string \<Rightarrow> jsstring" where
  "js s = map of_char s"

text \<open>\<open>\d\<close> of a regular expression without the unicode flag, and a decimal digit of
  \<open>parseInt\<close> and \<open>parseFloat\<close>: the code units of \<open>0\<close> to \<open>9\<close>.\<close>

definition is_digit :: "code_unit \<Rightarrow> bool" where
  "is_digit c = (48 \<le> c \<and> c \<le> 57)"

text \<open>The line terminators of ECMAScript: LF, CR, LS and PS.  The dot of a regular
  expression matches every code unit but these.\<close>

definition is_line_terminator :: "code_unit \<Rightarrow> bool" where
  "is_line_terminator c = (c = 10 \<or> c = 13 \<or> c = 8232 \<or> c = 8233)"

text \<open>What \<open>String.prototype.trim\<close> strips and \<open>parseFloat\<close> skips: white space (TAB, VT, FF,
  SP, NBSP, ZWNBSP and the space separators of Unicode) and the line terminators.\<close>

definition is_white_space :: "code_unit \<Rightarrow> bool" where
  "is_white_space c =
     (c = 9 \<or> c = 11 \<or> c = 12 \<or> c = 32 \<or> c = 160 \<or> c = 5760 \<or> (8192 \<le> c \<and> c \<le> 8202) \<or>
      c = 8239 \<or> c = 8287 \<or> c = 12288 \<or> c = 65279 \<or> is_line_terminator c)"

definition trim :: "jsstring \<Rightarrow> jsstring" where
  "trim s = rev (dropWhile is_white_space (rev (dropWhile is_white_space s)))"

text \<open>\<open>s.split(sep)\<close> for a separator of one code unit: the pieces between the separators,
  empty pieces included; a string without the separator is its own single piece.\<close>

fun split :: "code_unit \<Rightarrow> jsstring \<Rightarrow> jsstring list" where
  "split sep [] = [[]]"
| "split sep (c # cs) =
     (if c = sep then [] # split sep cs
      else (case split sep cs of [] \<Rightarrow> [[c]] | p # ps \<Rightarrow> (c # p) # ps))"

subsection \<open>Numbers\<close>

datatype js_number = NaN | Finite rat | PosInfinity | NegInfinity

definition isNaN :: "js_number \<Rightarrow> bool" where
  "isNaN x = (x = NaN)"

text \<open>Rounding to a double.  A double has a significand of 53 bits; its unit in the last place
  is \<open>2 ^ e\<close> with \<open>e\<close> at least \<open>-1074\<close>, and its magnitude is below \<open>2 ^ 1024\<close>.

  \<open>bit_length n\<close> is the number of binary digits of \<open>n\<close>, and \<open>ilog2 a\<close> the integer \<open>k\<close> with
  \<open>2 ^ k \<le> a < 2 ^ (k + 1)\<close>, for a positive \<open>a\<close>.\<close>

function bit_length :: "int \<Rightarrow> nat" where
  "bit_length n = (if n \<le> 0 then 0 else Suc (bit_length (n div 2)))"
  by pat_completeness auto
termination
  by (relation "measure nat") auto

declare bit_length.simps [simp del]

definition pow2 :: "int \<Rightarrow> rat" where
  "pow2 e = (if 0 \<le> e then 2 ^ nat e else 1 / 2 ^ nat (- e))"

definition ilog2 :: "rat \<Rightarrow> int" where
  "ilog2 a =
     (if 1 \<le> a then int (bit_length \<lfloor>a\<rfloor>) - 1 else - int (bit_length (\<lceil>1 / a\<rceil> - 1)))"

text \<open>The nearest integer, the even one of the two when \<open>x\<close> lies halfway.\<close>

definition round_even :: "rat \<Rightarrow> int" where
  "round_even x =
     (let f = \<lfloor>x\<rfloor>; r = x - of_int f
      in if r < 1 / 2 then f else if 1 / 2 < r then f + 1 else if even f then f else f + 1)"

text \<open>A positive \<open>a\<close> rounded to a multiple of the unit in the last place of its binade (of
  \<open>2 ^ -1074\<close> in the subnormal range).\<close>

definition round_magnitude :: "rat \<Rightarrow> rat" where
  "round_magnitude a =
     (let e = max (ilog2 a - 52) (- 1074) in of_int (round_even (a / pow2 e)) * pow2 e)"

definition round_double :: "rat \<Rightarrow> js_number" where
  "round_double x =
     (if x = 0 then Finite 0
      else if 2 ^ 1024 \<le> round_magnitude \<bar>x\<bar> then (if x < 0 then NegInfinity else PosInfinity)
      else Finite (if x < 0 then - round_magnitude \<bar>x\<bar> else round_magnitude \<bar>x\<bar>))"

text \<open>The operators \<open>*\<close> and \<open>+\<close> on numbers.\<close>

fun js_mul :: "js_number \<Rightarrow> js_number \<Rightarrow> js_number" where
  "js_mul NaN _ = NaN"
| "js_mul _ NaN = NaN"
| "js_mul (Finite a) (Finite b) = round_double (a * b)"
| "js_mul (Finite a) PosInfinity =
     (if a = 0 then NaN else if 0 < a then PosInfinity else NegInfinity)"
| "js_mul (Finite a) NegInfinity =
     (if a = 0 then NaN else if 0 < a then NegInfinity else PosInfinity)"
| "js_mul PosInfinity (Finite b) =
     (if b = 0 then NaN else if 0 < b then PosInfinity else NegInfinity)"
| "js_mul NegInfinity (Finite b) =
     (if b = 0 then NaN else if 0 < b then NegInfinity else PosInfinity)"
| "js_mul PosInfinity PosInfinity = PosInfinity"
| "js_mul PosInfinity NegInfinity = NegInfinity"
| "js_mul NegInfinity PosInfinity = NegInfinity"
| "js_mul NegInfinity NegInfinity = PosInfinity"

fun js_add :: "js_number \<Rightarrow> js_number \<Rightarrow> js_number" where
  "js_add NaN _ = NaN"
| "js_add _ NaN = NaN"
| "js_add (Finite a) (Finite b) = round_double (a + b)"
| "js_add (Finite a) PosInfinity = PosInfinity"
| "js_add (Finite a) NegInfinity = NegInfinity"
| "js_add PosInfinity (Finite b) = PosInfinity"
| "js_add NegInfinity (Finite b) = NegInfinity"
| "js_add PosInfinity PosInfinity = PosInfinity"
| "js_add PosInfinity NegInfinity = NaN"
| "js_add NegInfinity PosInfinity = NaN"
| "js_add NegInfinity NegInfinity = NegInfinity"

definition digits_value :: "jsstring \<Rightarrow> nat" where
  "digits_value ds = foldl (\<lambda>a c. 10 * a + (c - 48)) 0 ds"

text \<open>An optional sign in front of a numeric literal: whether it is a minus, and the rest.\<close>

definition strip_sign :: "jsstring \<Rightarrow> bool \<times> jsstring" where
  "strip_sign s =
     (case s of
        [] \<Rightarrow> (False, [])
      | c # r \<Rightarrow> if c = 45 then (True, r) else if c = 43 then (False, r) else (False, s))"

text \<open>\<open>parseInt(s, 10)\<close>: leading white space is skipped, then an optional sign, then the
  longest run of decimal digits; \<open>NaN\<close> when that run is empty, and the double of the integer
  otherwise.\<close>

definition parseInt10 :: "jsstring \<Rightarrow> js_number" where
  "parseInt10 inputString =
     (let (neg, u) = strip_sign (dropWhile is_white_space inputString);
          ds = takeWhile is_digit u
      in if ds = [] then NaN
         else round_double (if neg then - of_nat (digits_value ds) else of_nat (digits_value ds)))"

text \<open>The exponent part of a decimal literal, when one is there: \<open>e\<close> or \<open>E\<close>, an optional
  sign and at least one digit.  Anything else is no exponent part, and the exponent is 0.\<close>

definition exponent_part :: "jsstring \<Rightarrow> int" where
  "exponent_part r =
     (case r of
        [] \<Rightarrow> 0
      | e # r' \<Rightarrow>
          if e = 101 \<or> e = 69 then
            (let (neg, u) = strip_sign r'; ds = takeWhile is_digit u
             in if ds = [] then 0
                else if neg then - int (digits_value ds) else int (digits_value ds))
          else 0)"

definition scale10 :: "rat \<Rightarrow> int \<Rightarrow> rat" where
  "scale10 m ex = (if 0 \<le> ex then m * 10 ^ nat ex else m / 10 ^ nat (- ex))"

text \<open>\<open>parseFloat(s)\<close>: leading white space is skipped and the longest prefix of the rest
  that is a decimal literal is converted; whatever follows that prefix is ignored.  A decimal
  literal is an optional sign followed by \<open>Infinity\<close>, or by digits with an optional fraction
  and exponent, or by a dot, digits and an optional exponent.  Without such a prefix the
  result is \<open>NaN\<close>; otherwise it is the double nearest to the decimal value of the literal.
  (For a literal of more than 20 significant digits the standard lets an engine round from the
  first 20; the embedding rounds the whole literal.)\<close>

definition parseFloat :: "jsstring \<Rightarrow> js_number" where
  "parseFloat inputString =
     (let (neg, u) = strip_sign (dropWhile is_white_space inputString)
      in if take 8 u = [73, 110, 102, 105, 110, 105, 116, 121]
         then (if neg then NegInfinity else PosInfinity)
         else
           (let ip = takeWhile is_digit u;
                r1 = dropWhile is_digit u;
                dot = (r1 \<noteq> [] \<and> hd r1 = 46);
                fp = (if dot then takeWhile is_digit (tl r1) else []);
                r2 = (if dot then dropWhile is_digit (tl r1) else r1)
            in if ip = [] \<and> fp = [] then NaN
               else
                 (let v = scale10 (of_nat (digits_value (ip @ fp)) / 10 ^ length fp)
                            (exponent_part r2)
                  in round_double (if neg then - v else v))))"

subsection \<open>The data model\<close>

text \<open>A value of the style object: \<open>string | number\<close>.\<close>

datatype style_value = Str jsstring | Number js_number

type_synonym style_object = "jsstring \<rightharpoonup> style_value"

text \<open>\<open>interface LrcLine\<close>.  The optional \<open>style\<close> is \<open>None\<close> when the property is
  \<open>undefined\<close>; the field \<open>text\<close> is written \<open>text'\<close>, \<open>text\<close> being a keyword here.
  Every \<open>lineTime\<close> that \<open>parseLrc\<close> computes is finite, so the field holds the rational
  value.\<close>

record LrcLine =
  lineTime :: rat
  text' :: jsstring
  style :: "style_object option"

subsection \<open>The two regular expressions\<close>

text \<open>\<open>timeRegex = /\[(\d{2}):(\d{2}(?:\.\d{2,3})?)\]/\<close>.

  \<open>timeRegex_close\<close> is the closing bracket at the end of the pattern: what follows it.\<close>

definition timeRegex_close :: "jsstring \<Rightarrow> jsstring option" where
  "timeRegex_close r = (case r of [] \<Rightarrow> None | c # rest \<Rightarrow> if c = 93 then Some rest else None)"

text \<open>\<open>timeRegex_frac n r\<close> is the optional group taken with \<open>n\<close> digits, followed by the
  closing bracket: the fraction (with its dot) and what follows the bracket.\<close>

definition timeRegex_frac :: "nat \<Rightarrow> jsstring \<Rightarrow> (jsstring \<times> jsstring) option" where
  "timeRegex_frac n r =
     (case r of
        [] \<Rightarrow> None
      | d # r' \<Rightarrow>
          if d = 46 \<and> length (take n r') = n \<and> list_all is_digit (take n r')
          then map_option (\<lambda>rest. (46 # take n r', rest)) (timeRegex_close (drop n r'))
          else None)"

text \<open>What may follow the two digits of the seconds, in the order in which the backtracking
  matcher tries it: a fraction of three digits, a fraction of two digits, no fraction.\<close>

definition timeRegex_tail :: "jsstring \<Rightarrow> (jsstring \<times> jsstring) option" where
  "timeRegex_tail r =
     (case timeRegex_frac 3 r of
        Some x \<Rightarrow> Some x
      | None \<Rightarrow>
          (case timeRegex_frac 2 r of
             Some x \<Rightarrow> Some x
           | None \<Rightarrow> map_option (\<lambda>rest. ([], rest)) (timeRegex_close r)))"

text \<open>A match of \<open>timeRegex\<close> that starts at the first code unit: the two capture groups and
  the rest of the string after the match.\<close>

fun timeRegex_at :: "jsstring \<Rightarrow> (jsstring \<times> jsstring \<times> jsstring) option" where
  "timeRegex_at (lb # m1 # m2 # co # s1 # s2 # r) =
     (if lb = 91 \<and> is_digit m1 \<and> is_digit m2 \<and> co = 58 \<and> is_digit s1 \<and> is_digit s2
      then map_option (\<lambda>(fr, rest). ([m1, m2], s1 # s2 # fr, rest)) (timeRegex_tail r)
      else None)"
| "timeRegex_at _ = None"

text \<open>The leftmost match in the string (\<open>line.match(timeRegex)\<close>; the regular expression
  has no global flag): the text before the match, the two groups, the text after the match.\<close>

fun timeRegex_exec :: "jsstring \<Rightarrow> (jsstring \<times> jsstring \<times> jsstring \<times> jsstring) option" where
  "timeRegex_exec [] = None"
| "timeRegex_exec (c # cs) =
     (case timeRegex_at (c # cs) of
        Some (g1, g2, rest) \<Rightarrow> Some ([], g1, g2, rest)
      | None \<Rightarrow> map_option (\<lambda>(pre, g1, g2, rest). (c # pre, g1, g2, rest)) (timeRegex_exec cs))"

text \<open>\<open>styleRegex = /\{(.*?)\}/\<close>.  After the opening brace the lazy \<open>.*?\<close> runs to the first
  closing brace; it cannot cross a line terminator.  The result is the group and the rest.\<close>

fun styleRegex_body :: "jsstring \<Rightarrow> (jsstring \<times> jsstring) option" where
  "styleRegex_body [] = None"
| "styleRegex_body (c # cs) =
     (if c = 125 then Some ([], cs)
      else if is_line_terminator c then None
      else map_option (\<lambda>(g, rest). (c # g, rest)) (styleRegex_body cs))"

fun styleRegex_exec :: "jsstring \<Rightarrow> (jsstring \<times> jsstring \<times> jsstring) option" where
  "styleRegex_exec [] = None"
| "styleRegex_exec (c # cs) =
     (case (if c = 123 then styleRegex_body cs else None) of
        Some (g, rest) \<Rightarrow> Some ([], g, rest)
      | None \<Rightarrow> map_option (\<lambda>(pre, g, rest). (c # pre, g, rest)) (styleRegex_exec cs))"

subsection \<open>parseLrc\<close>

text \<open>\<open>style[key] = v\<close> on an object created by \<open>{}\<close>.  The assignment creates or overwrites
  the own property \<open>key\<close>, except for the key \<open>__proto__\<close>: that one is the accessor inherited
  from \<open>Object.prototype\<close>, whose setter ignores a string or a number.\<close>

definition proto_key :: jsstring where
  "proto_key = [95, 95, 112, 114, 111, 116, 111, 95, 95]"

definition object_set :: "style_object \<Rightarrow> jsstring \<Rightarrow> style_value \<Rightarrow> style_object" where
  "object_set obj key v = (if key = proto_key then obj else obj(key \<mapsto> v))"

text \<open>The callback of \<open>styleContent.split(',').forEach\<close>: the pair is split at every colon,
  the pieces are trimmed, and the destructuring \<open>[key, val]\<close> takes the first two of them
  (\<open>val\<close> is \<open>undefined\<close> when there is one piece only).  \<open>key && val\<close> holds when both are
  non-empty strings.\<close>

definition style_pair :: "style_object \<Rightarrow> jsstring \<Rightarrow> style_object" where
  "style_pair style_obj pair =
     (case map trim (split 58 pair) of
        key # val # _ \<Rightarrow>
          if key \<noteq> [] \<and> val \<noteq> [] then
            (let numVal = parseFloat val
             in object_set style_obj key (if isNaN numVal then Str val else Number numVal))
          else style_obj
      | _ \<Rightarrow> style_obj)"

definition parse_style :: "jsstring \<Rightarrow> style_object" where
  "parse_style styleContent = foldl style_pair Map.empty (split 44 styleContent)"

text \<open>The body of the loop over the lines, for a line on which \<open>timeRegex\<close> matched: the
  object that is pushed.  \<open>totalSeconds\<close> is computed in double arithmetic.  On the two groups of
  a match it is always a finite number (lemma \<open>timeRegex_groups_finite\<close> below), so the last
  case is never taken.\<close>

definition make_line :: "jsstring \<Rightarrow> jsstring \<Rightarrow> jsstring \<Rightarrow> jsstring \<Rightarrow> LrcLine option" where
  "make_line pre g1 g2 rest =
     (let minutes = parseInt10 g1;
          seconds = parseFloat g2;
          totalSeconds = js_add (js_mul minutes (Finite 60)) seconds;
          text0 = trim (pre @ rest)
      in case totalSeconds of
           Finite t \<Rightarrow>
             (case styleRegex_exec text0 of
                None \<Rightarrow> Some \<lparr>lineTime = t, text' = text0, style = None\<rparr>
              | Some (spre, styleContent, srest) \<Rightarrow>
                  Some \<lparr>lineTime = t, text' = trim (spre @ srest),
                        style = Some (parse_style styleContent)\<rparr>)
         | _ \<Rightarrow> None)"

definition parse_line :: "jsstring \<Rightarrow> LrcLine option" where
  "parse_line line =
     (case timeRegex_exec line of
        None \<Rightarrow> None
      | Some (pre, g1, g2, rest) \<Rightarrow> make_line pre g1 g2 rest)"

text \<open>\<open>for (const line of lines)\<close>, with \<open>result\<close> as the state of the loop.\<close>

fun parse_lines :: "jsstring list \<Rightarrow> LrcLine list \<Rightarrow> LrcLine list" where
  "parse_lines [] result = result"
| "parse_lines (line # lines) result =
     parse_lines lines (case parse_line line of None \<Rightarrow> result | Some l \<Rightarrow> result @ [l])"

text \<open>\<open>result.sort((a, b) => a.lineTime - b.lineTime)\<close>.  The comparator is consistent on
  finite numbers, and \<open>Array.prototype.sort\<close> is stable, so the result is the stable sort:
  each element is put in front of the first element it does not come after.  Only the sign of
  the difference is used, and the difference of two doubles rounds to a number of the same
  sign, so the exact difference stands for it.\<close>

definition compareFn :: "LrcLine \<Rightarrow> LrcLine \<Rightarrow> rat" where
  "compareFn a b = lineTime a - lineTime b"

fun sort_insert :: "LrcLine \<Rightarrow> LrcLine list \<Rightarrow> LrcLine list" where
  "sort_insert a [] = [a]"
| "sort_insert a (b # bs) = (if compareFn a b \<le> 0 then a # b # bs else b # sort_insert a bs)"

definition array_sort :: "LrcLine list \<Rightarrow> LrcLine list" where
  "array_sort xs = foldr sort_insert xs []"

definition parseLrc :: "jsstring \<Rightarrow> LrcLine list" where
  "parseLrc lrcContent = array_sort (parse_lines (split 10 lrcContent) [])"

subsection \<open>getCurrentLine\<close>

text \<open>The loop \<open>for (let i = lines.length - 1; i >= 0; i--)\<close>; the first argument is \<open>i + 1\<close>,
  so the loop ends at 0.  The index stays below the length of the array.\<close>

fun getCurrentLine_loop :: "nat \<Rightarrow> LrcLine list \<Rightarrow> rat \<Rightarrow> LrcLine option" where
  "getCurrentLine_loop 0 lines currentTime = None"
| "getCurrentLine_loop (Suc i) lines currentTime =
     (if currentTime \<ge> lineTime (lines ! i) then Some (lines ! i)
      else getCurrentLine_loop i lines currentTime)"

definition getCurrentLine :: "LrcLine list \<Rightarrow> rat \<Rightarrow> LrcLine option" where
  "getCurrentLine lines currentTime = getCurrentLine_loop (length lines) lines currentTime"

subsection \<open>Notions used in the statements\<close>

text \<open>The value of a decimal digit.\<close>

definition digit_of :: "code_unit \<Rightarrow> rat" where
  "digit_of c = of_nat (c - 48)"

text \<open>The shape of a timestamp tag, said without the matcher: \<open>[\<close>, two digits, \<open>:\<close>, two
  digits, an optional fraction (a dot and two or three digits), \<open>]\<close>.  \<open>g1\<close> is the text of
  the minutes and \<open>g2\<close> that of the seconds with the fraction.\<close>

definition is_fraction :: "jsstring \<Rightarrow> bool" where
  "is_fraction fr =
     (fr = [] \<or>
      (hd fr = 46 \<and> (length (tl fr) = 2 \<or> length (tl fr) = 3) \<and> list_all is_digit (tl fr)))"

definition is_time_groups :: "jsstring \<Rightarrow> jsstring \<Rightarrow> bool" where
  "is_time_groups g1 g2 =
     (length g1 = 2 \<and> list_all is_digit g1 \<and>
      2 \<le> length g2 \<and> list_all is_digit (take 2 g2) \<and> is_fraction (drop 2 g2))"

definition time_tag :: "jsstring \<Rightarrow> jsstring \<Rightarrow> jsstring" where
  "time_tag g1 g2 = 91 # g1 @ 58 # g2 @ [93]"

text \<open>\<open>dbl x\<close> is the double nearest to \<open>x\<close>, for an \<open>x\<close> in the range of the doubles.\<close>

definition dbl :: "rat \<Rightarrow> rat" where
  "dbl x = (case round_double x of Finite r \<Rightarrow> r | _ \<Rightarrow> 0)"

text \<open>\<open>seconds_value g2\<close> is the decimal number that the seconds of a tag spell: the whole
  seconds plus the fraction.  \<open>tag_seconds g1 g2\<close> is the time of the tag as the program
  computes it in doubles: the seconds are rounded to a double, the minutes times 60 are added
  to it, and the sum is rounded again.\<close>

definition seconds_value :: "jsstring \<Rightarrow> rat" where
  "seconds_value g2 =
     of_nat (digits_value (take 2 g2)) + of_nat (digits_value (drop 3 g2)) / 10 ^ (length g2 - 3)"

definition tag_seconds :: "jsstring \<Rightarrow> jsstring \<Rightarrow> rat" where
  "tag_seconds g1 g2 = dbl (of_nat (digits_value g1) * 60 + dbl (seconds_value g2))"

text \<open>A style annotation in a text: an opening brace, later a closing brace, and no line
  terminator between the two.\<close>

definition has_annotation :: "jsstring \<Rightarrow> bool" where
  "has_annotation s =
     (\<exists>a c b. s = a @ 123 # c @ 125 # b \<and> (\<forall>x\<in>set c. \<not> is_line_terminator x))"

text \<open>A segment of an annotation that yields no pair: it has no colon, or the piece before the
  first colon or the piece after it is empty once trimmed.\<close>

definition malformed_pair :: "jsstring \<Rightarrow> bool" where
  "malformed_pair seg =
     (case split 58 seg of k # v # _ \<Rightarrow> trim k = [] \<or> trim v = [] | _ \<Rightarrow> True)"

text \<open>A string that begins with a decimal literal, after white space and a sign: with
  \<open>Infinity\<close>, with a digit, or with a dot and a digit.\<close>

definition has_numeric_prefix :: "jsstring \<Rightarrow> bool" where
  "has_numeric_prefix s =
     (let u = snd (strip_sign (dropWhile is_white_space s))
      in take 8 u = [73, 110, 102, 105, 110, 105, 116, 121] \<or>
         (u \<noteq> [] \<and> is_digit (hd u)) \<or>
         (2 \<le> length u \<and> hd u = 46 \<and> is_digit (u ! 1)))"

text \<open>A string that contains a well-formed timestamp tag.\<close>

definition contains_time_tag :: "jsstring \<Rightarrow> bool" where
  "contains_time_tag s = (\<exists>a g1 g2 b. is_time_groups g1 g2 \<and> s = a @ time_tag g1 g2 @ b)"

text \<open>The reading of two claims, kept apart from the code.  A ``numeric value'' in the words
  of the specification is a string that is a decimal literal as a whole: \<open>literal_rest\<close> is what
  is left of a string after the longest decimal literal at its start (\<open>exponent_rest\<close> after an
  exponent part), and nothing may be left.\<close>

definition exponent_rest :: "jsstring \<Rightarrow> jsstring" where
  "exponent_rest r =
     (case r of
        [] \<Rightarrow> []
      | e # r' \<Rightarrow>
          if (e = 101 \<or> e = 69) \<and> takeWhile is_digit (snd (strip_sign r')) \<noteq> []
          then dropWhile is_digit (snd (strip_sign r'))
          else r)"

definition literal_rest :: "jsstring \<Rightarrow> jsstring option" where
  "literal_rest s =
     (let u = snd (strip_sign s)
      in if take 8 u = [73, 110, 102, 105, 110, 105, 116, 121] then Some (drop 8 u)
         else
           (let ip = takeWhile is_digit u;
                r1 = dropWhile is_digit u;
                dot = (r1 \<noteq> [] \<and> hd r1 = 46);
                fp = (if dot then takeWhile is_digit (tl r1) else []);
                r2 = (if dot then dropWhile is_digit (tl r1) else r1)
            in if ip = [] \<and> fp = [] then None else Some (exponent_rest r2)))"

definition whole_numeric_value :: "jsstring \<Rightarrow> bool" where
  "whole_numeric_value s = (literal_rest s = Some [])"

text \<open>A split ``on the first colon'' in the words of the specification: what stands before
  the first separator, and everything that stands after it.\<close>

definition split_first :: "code_unit \<Rightarrow> jsstring \<Rightarrow> jsstring \<times> jsstring" where
  "split_first sep s = (takeWhile (\<lambda>c. c \<noteq> sep) s, drop 1 (dropWhile (\<lambda>c. c \<noteq> sep) s))"

section \<open>Properties\<close>

subsection \<open>Rounding to a double\<close>

lemma bit_length_upper: "0 \<le> n \<Longrightarrow> n < 2 ^ bit_length n"
proof (induction n rule: bit_length.induct)
  case (1 n)
  show ?case
  proof (cases "n \<le> 0")
    case True
    with "1.prems" show ?thesis by (simp add: bit_length.simps)
  next
    case False
    then have "n div 2 < 2 ^ bit_length (n div 2)" using "1.IH" by simp
    then have "n < 2 * 2 ^ bit_length (n div 2)" by linarith
    with False show ?thesis by (simp add: bit_length.simps [of n])
  qed
qed

lemma bit_length_lower: "0 < n \<Longrightarrow> 2 ^ (bit_length n - 1) \<le> n"
proof (induction n rule: bit_length.induct)
  case (1 n)
  show ?case
  proof (cases "n div 2 \<le> 0")
    case True
    with "1.prems" have "n = 1" by linarith
    then show ?thesis by (simp add: bit_length.simps)
  next
    case False
    then have ih: "2 ^ (bit_length (n div 2) - 1) \<le> n div 2" using "1.IH" "1.prems" by simp
    from False have "bit_length (n div 2) \<noteq> 0" by (simp add: bit_length.simps [of "n div 2"])
    then obtain k where k: "bit_length (n div 2) = Suc k" by (cases "bit_length (n div 2)") auto
    from ih k have "2 * 2 ^ k \<le> n" by simp
    with "1.prems" k show ?thesis by (simp add: bit_length.simps [of n])
  qed
qed

lemma bit_length_pos: "0 < n \<Longrightarrow> 0 < bit_length n"
  by (simp add: bit_length.simps [of n])

lemma pow2_powi: "pow2 e = 2 powi e"
  by (simp add: pow2_def power_int_def inverse_eq_divide power_one_over)

lemma pow2_pos: "0 < pow2 e"
  by (simp add: pow2_def)

lemma pow2_mono: "e1 \<le> e2 \<Longrightarrow> pow2 e1 \<le> pow2 e2"
  unfolding pow2_powi by (rule power_int_increasing) simp_all

lemma ilog2_lower:
  assumes "0 < a"
  shows "pow2 (ilog2 a) \<le> a"
proof (cases "1 \<le> a")
  case True
  then have f: "0 < \<lfloor>a\<rfloor>" by simp
  from bit_length_pos [OF f] have "ilog2 a = int (bit_length \<lfloor>a\<rfloor> - 1)"
    using True by (simp add: ilog2_def)
  then have "pow2 (ilog2 a) = of_int (2 ^ (bit_length \<lfloor>a\<rfloor> - 1))"
    by (simp add: pow2_def)
  also have "\<dots> \<le> of_int \<lfloor>a\<rfloor>"
    using bit_length_lower [OF f] by (simp only: of_int_le_iff)
  also have "\<dots> \<le> a" by simp
  finally show ?thesis .
next
  case False
  let ?k = "bit_length (\<lceil>1 / a\<rceil> - 1)"
  from assms have "0 < 1 / a" by simp
  then have "0 < \<lceil>1 / a\<rceil>" by (simp only: zero_less_ceiling)
  then have "0 \<le> \<lceil>1 / a\<rceil> - 1" by linarith
  from bit_length_upper [OF this] have "\<lceil>1 / a\<rceil> \<le> 2 ^ ?k" by simp
  then have "1 / a \<le> of_int (2 ^ ?k)" by (simp only: ceiling_le_iff)
  then have "1 / a \<le> 2 ^ ?k" by simp
  with assms have "1 \<le> 2 ^ ?k * a"
    by (simp add: pos_divide_le_eq)
  then have "1 / 2 ^ ?k \<le> a"
    by (simp add: pos_divide_le_eq mult.commute)
  moreover from False have "pow2 (ilog2 a) = 1 / 2 ^ ?k"
    by (cases "?k = 0") (simp_all add: ilog2_def pow2_def)
  ultimately show ?thesis by simp
qed

lemma ilog2_nonneg: "1 \<le> a \<Longrightarrow> 0 \<le> ilog2 a"
proof -
  assume a: "1 \<le> a"
  then have "0 < \<lfloor>a\<rfloor>" by simp
  from bit_length_pos [OF this] a show ?thesis by (simp add: ilog2_def)
qed

lemma round_even_of_int: "round_even (of_int z) = z"
  by (simp add: round_even_def)

lemma round_even_bounds: "0 \<le> x \<Longrightarrow> 0 \<le> round_even x \<and> of_int (round_even x) \<le> x + 1"
proof -
  assume x: "0 \<le> x"
  then have f: "0 \<le> \<lfloor>x\<rfloor>" by simp
  have g: "of_int \<lfloor>x\<rfloor> \<le> x" by simp
  have "round_even x = \<lfloor>x\<rfloor> \<or> round_even x = \<lfloor>x\<rfloor> + 1"
    by (simp add: round_even_def Let_def)
  then show ?thesis
  proof
    assume r: "round_even x = \<lfloor>x\<rfloor>"
    from g have "of_int \<lfloor>x\<rfloor> \<le> x + 1" by linarith
    with f r show ?thesis by simp
  next
    assume r: "round_even x = \<lfloor>x\<rfloor> + 1"
    from g have "of_int (\<lfloor>x\<rfloor> + 1) \<le> x + 1" by simp
    with f r show ?thesis by simp
  qed
qed

lemma round_magnitude_bounds:
  assumes "0 < a"
  shows "0 \<le> round_magnitude a \<and> round_magnitude a \<le> 2 * a + 1"
proof -
  define e where "e = max (ilog2 a - 52) (- 1074)"
  have p: "0 < pow2 e" by (rule pow2_pos)
  have pe: "pow2 e \<le> a + 1"
  proof (cases "ilog2 a - 52 \<le> - 1074")
    case True
    then have "e = - 1074" by (simp add: e_def)
    then have "pow2 e \<le> 1" by (simp add: pow2_def)
    with assms show ?thesis by simp
  next
    case False
    then have "e \<le> ilog2 a" by (simp add: e_def)
    then have "pow2 e \<le> pow2 (ilog2 a)" by (rule pow2_mono)
    with ilog2_lower [OF assms] show ?thesis by simp
  qed
  from assms p have q: "0 \<le> a / pow2 e" by simp
  from round_even_bounds [OF q] have r: "0 \<le> round_even (a / pow2 e)"
    "of_int (round_even (a / pow2 e)) \<le> a / pow2 e + 1" by simp_all
  from r(2) p have "of_int (round_even (a / pow2 e)) * pow2 e \<le> (a / pow2 e + 1) * pow2 e"
    by (simp only: mult_le_cancel_right_pos)
  also from p have "\<dots> = a + pow2 e" by (simp add: field_simps)
  finally have "of_int (round_even (a / pow2 e)) * pow2 e \<le> 2 * a + 1" using pe by simp
  moreover from r(1) p have "0 \<le> of_int (round_even (a / pow2 e)) * pow2 e" by simp
  ultimately show ?thesis by (simp add: round_magnitude_def e_def Let_def)
qed

lemma round_double_not_NaN: "round_double x \<noteq> NaN"
  by (simp add: round_double_def)

text \<open>A number of moderate size rounds to a finite double of the same sign.\<close>

lemma round_double_finite:
  assumes "0 \<le> x" "x \<le> 2 ^ 1000"
  shows "\<exists>r. round_double x = Finite r \<and> 0 \<le> r \<and> r \<le> 2 * x + 1"
proof (cases "x = 0")
  case True
  then show ?thesis by (simp add: round_double_def)
next
  case False
  with assms have a: "0 < x" by simp
  from round_magnitude_bounds [OF a] have b: "0 \<le> round_magnitude x" "round_magnitude x \<le> 2 * x + 1"
    by simp_all
  from b(2) assms(2) have "round_magnitude x < 2 ^ 1024" by simp
  with a b show ?thesis by (simp add: round_double_def)
qed

lemma dbl_bounds: "0 \<le> x \<Longrightarrow> x \<le> 2 ^ 1000 \<Longrightarrow> round_double x = Finite (dbl x) \<and> 0 \<le> dbl x \<and> dbl x \<le> 2 * x + 1"
  using round_double_finite [of x] by (auto simp: dbl_def)

text \<open>A natural number below \<open>2 ^ 53\<close> is a double.\<close>

lemma round_double_nat:
  assumes "n < 2 ^ 53"
  shows "round_double (of_nat n) = Finite (of_nat n)"
proof (cases "n = 0")
  case True
  then show ?thesis by (simp add: round_double_def)
next
  case False
  let ?a = "of_nat n :: rat"
  from False have a1: "1 \<le> ?a" by simp
  then have a0: "0 < ?a" by simp
  define k where "k = ilog2 ?a"
  have k0: "0 \<le> k" unfolding k_def by (rule ilog2_nonneg [OF a1])
  have "pow2 k \<le> ?a" unfolding k_def by (rule ilog2_lower [OF a0])
  moreover from assms have "?a < 2 ^ 53"
    by (metis of_nat_less_iff of_nat_numeral of_nat_power)
  ultimately have "pow2 k < pow2 53" by (simp add: pow2_def)
  then have "k < 53" using pow2_mono [of 53 k] by (cases "k < 53") auto
  with k0 have e: "max (k - 52) (- 1074) = k - 52" and ke: "k - 52 \<le> 0" by simp_all
  have p: "pow2 (k - 52) = 1 / 2 ^ nat (52 - k)"
  proof (cases "k = 52")
    case True
    then show ?thesis by (simp add: pow2_def)
  next
    case False
    with ke show ?thesis by (simp add: pow2_def)
  qed
  have "?a / pow2 (k - 52) = of_int (int n * 2 ^ nat (52 - k))"
    by (simp add: p)
  then have "round_even (?a / pow2 (k - 52)) = int n * 2 ^ nat (52 - k)"
    by (simp only: round_even_of_int)
  then have "round_magnitude ?a = ?a"
    by (simp add: round_magnitude_def k_def [symmetric] e Let_def p)
  moreover from assms have "?a < 2 ^ 1024"
  proof -
    from assms have "?a < 2 ^ 53" by (metis of_nat_less_iff of_nat_numeral of_nat_power)
    also have "(2::rat) ^ 53 < 2 ^ 1024" by simp
    finally show ?thesis .
  qed
  ultimately show ?thesis using a0 by (simp add: round_double_def)
qed

lemma dbl_nat: "n < 2 ^ 53 \<Longrightarrow> dbl (of_nat n) = of_nat n"
  by (simp add: dbl_def round_double_nat)

text \<open>\<open>ilog2\<close> is the binary exponent, and \<open>round_magnitude\<close> yields a double nearest to its
  argument: a multiple of the unit in the last place with a significand of at most 53 bits,
  at most half a unit away.\<close>

lemma ilog2_upper:
  assumes "0 < a"
  shows "a < pow2 (ilog2 a + 1)"
proof (cases "1 \<le> a")
  case True
  then have f: "0 \<le> \<lfloor>a\<rfloor>" by simp
  have "a < of_int (\<lfloor>a\<rfloor> + 1)" by linarith
  also have "\<dots> \<le> of_int (2 ^ bit_length \<lfloor>a\<rfloor>)"
    using bit_length_upper [OF f] by (simp only: of_int_le_iff)
  finally have "a < 2 ^ bit_length \<lfloor>a\<rfloor>" by simp
  with True show ?thesis by (simp add: ilog2_def pow2_def)
next
  case False
  let ?n = "\<lceil>1 / a\<rceil> - 1"
  let ?k = "bit_length ?n"
  from False assms have "1 < 1 / a" by simp
  then have "1 < \<lceil>1 / a\<rceil>" by (simp only: less_ceiling_iff of_int_1)
  then have n: "0 < ?n" by simp
  from bit_length_pos [OF n] obtain j where j: "?k = Suc j" by (cases ?k) auto
  from bit_length_lower [OF n] j have "2 ^ j \<le> ?n" by simp
  then have "of_int (2 ^ j) \<le> (of_int ?n :: rat)" by (simp only: of_int_le_iff)
  moreover have "of_int ?n < 1 / a" by linarith
  ultimately have "2 ^ j < 1 / a" by simp
  with assms have "a * 2 ^ j < 1" by (simp add: pos_less_divide_eq mult.commute)
  then have "a < 1 / 2 ^ j" by (simp add: pos_less_divide_eq)
  moreover from False j have "pow2 (ilog2 a + 1) = 1 / 2 ^ j"
    by (cases "j = 0") (simp_all add: ilog2_def pow2_def)
  ultimately show ?thesis by simp
qed

lemma round_even_error: "\<bar>of_int (round_even x) - x\<bar> \<le> 1 / 2"
proof -
  have a: "of_int \<lfloor>x\<rfloor> \<le> x" "x < of_int \<lfloor>x\<rfloor> + 1" by linarith+
  consider "x - of_int \<lfloor>x\<rfloor> < 1 / 2" | "1 / 2 < x - of_int \<lfloor>x\<rfloor>" | "x - of_int \<lfloor>x\<rfloor> = 1 / 2"
    by linarith
  then show ?thesis
  proof cases
    case 1
    then have "round_even x = \<lfloor>x\<rfloor>" by (simp add: round_even_def Let_def)
    with 1 a show ?thesis by simp
  next
    case 2
    then have "round_even x = \<lfloor>x\<rfloor> + 1" by (simp add: round_even_def Let_def)
    with 2 a show ?thesis by simp
  next
    case 3
    then have "round_even x = \<lfloor>x\<rfloor> \<or> round_even x = \<lfloor>x\<rfloor> + 1"
      by (simp add: round_even_def Let_def)
    with 3 a show ?thesis by auto
  qed
qed

lemma round_even_le_int: "x \<le> of_int z \<Longrightarrow> round_even x \<le> z"
proof -
  assume x: "x \<le> of_int z"
  show ?thesis
  proof (cases "x = of_int z")
    case True
    then show ?thesis by (simp add: round_even_of_int)
  next
    case False
    with x have "x < of_int z" by simp
    then have "\<lfloor>x\<rfloor> < z" by (simp add: floor_less_iff)
    moreover have "round_even x \<le> \<lfloor>x\<rfloor> + 1" by (simp add: round_even_def Let_def)
    ultimately show ?thesis by simp
  qed
qed

lemma round_magnitude_nearest:
  assumes "0 < a"
  defines "e \<equiv> max (ilog2 a - 52) (- 1074)"
  shows "round_magnitude a = of_int (round_even (a / pow2 e)) * pow2 e"
    and "0 \<le> round_even (a / pow2 e)" and "round_even (a / pow2 e) \<le> 2 ^ 53"
    and "\<bar>round_magnitude a - a\<bar> \<le> pow2 e / 2"
proof -
  have p: "0 < pow2 e" by (rule pow2_pos)
  show r: "round_magnitude a = of_int (round_even (a / pow2 e)) * pow2 e"
    by (simp add: round_magnitude_def e_def Let_def)
  from assms(1) p have "0 \<le> a / pow2 e" by simp
  then show "0 \<le> round_even (a / pow2 e)" using round_even_bounds by blast
  have "pow2 (ilog2 a + 1) = pow2 (ilog2 a - 52) * 2 ^ 53"
    by (simp add: pow2_powi power_int_add power_int_diff)
  also have "\<dots> \<le> pow2 e * 2 ^ 53"
    using pow2_mono [of "ilog2 a - 52" e] by (simp add: e_def)
  finally have "a \<le> pow2 e * 2 ^ 53" using ilog2_upper [OF assms(1)] by simp
  with p have "a / pow2 e \<le> of_int (2 ^ 53)"
    by (simp add: pos_divide_le_eq mult.commute)
  then show "round_even (a / pow2 e) \<le> 2 ^ 53" by (rule round_even_le_int)
  have "round_magnitude a - a = (of_int (round_even (a / pow2 e)) - a / pow2 e) * pow2 e"
    using p by (simp add: r left_diff_distrib)
  then have "\<bar>round_magnitude a - a\<bar> = \<bar>of_int (round_even (a / pow2 e)) - a / pow2 e\<bar> * \<bar>pow2 e\<bar>"
    by (simp only: abs_mult)
  also have "\<dots> = \<bar>of_int (round_even (a / pow2 e)) - a / pow2 e\<bar> * pow2 e"
    using p by simp
  also have "\<dots> \<le> 1 / 2 * pow2 e"
    using round_even_error [of "a / pow2 e"] p by (simp only: mult_le_cancel_right_pos)
  finally show "\<bar>round_magnitude a - a\<bar> \<le> pow2 e / 2" by simp
qed

subsection \<open>Splitting\<close>

lemma split_not_Nil: "split sep s \<noteq> []"
  by (induction s) (auto split: list.splits)

lemma split_no_sep: "sep \<notin> set s \<Longrightarrow> split sep s = [s]"
  by (induction s) auto

lemma split_append: "split sep (a @ sep # b) = split sep a @ split sep b"
  by (induction a) (auto split: list.splits simp: split_not_Nil)

lemma split_head: "sep \<notin> set k \<Longrightarrow> split sep (k @ sep # r) = k # split sep r"
  by (simp add: split_append split_no_sep)

subsection \<open>Digits and the two conversions on the groups of a tag\<close>

lemma digit_facts:
  "is_digit c \<Longrightarrow>
   \<not> is_white_space c \<and> c \<noteq> 45 \<and> c \<noteq> 43 \<and> c \<noteq> 73 \<and> c \<noteq> 46 \<and> c \<noteq> 91 \<and> c \<noteq> 93 \<and> c \<noteq> 58"
  by (auto simp: is_digit_def is_white_space_def is_line_terminator_def)

lemma not_digit_consts: "\<not> is_digit 46" "\<not> is_digit 93" "\<not> is_digit 91" "\<not> is_digit 58"
  by (simp_all add: is_digit_def)

lemma is_fraction_iff:
  "is_fraction fr \<longleftrightarrow>
     fr = [] \<or> (\<exists>f1 f2. fr = [46, f1, f2] \<and> is_digit f1 \<and> is_digit f2) \<or>
     (\<exists>f1 f2 f3. fr = [46, f1, f2, f3] \<and> is_digit f1 \<and> is_digit f2 \<and> is_digit f3)"
proof (cases fr)
  case Nil
  then show ?thesis by (simp add: is_fraction_def)
next
  case (Cons d ds)
  have "length ds = 2 \<longleftrightarrow> (\<exists>f1 f2. ds = [f1, f2])"
    by (auto simp: length_Suc_conv numeral_2_eq_2)
  moreover have "length ds = 3 \<longleftrightarrow> (\<exists>f1 f2 f3. ds = [f1, f2, f3])"
    by (auto simp: length_Suc_conv numeral_3_eq_3)
  ultimately show ?thesis using Cons by (auto simp: is_fraction_def)
qed

lemma is_time_groups_iff:
  "is_time_groups g1 g2 \<longleftrightarrow>
     (\<exists>m1 m2 s1 s2 fr. g1 = [m1, m2] \<and> g2 = s1 # s2 # fr \<and> is_digit m1 \<and> is_digit m2 \<and>
        is_digit s1 \<and> is_digit s2 \<and> is_fraction fr)"
proof
  assume a: "is_time_groups g1 g2"
  then obtain m1 m2 where g1: "g1 = [m1, m2]"
    by (auto simp: is_time_groups_def length_Suc_conv numeral_2_eq_2)
  from a obtain s1 s2 fr where g2: "g2 = s1 # s2 # fr"
    by (cases g2; cases "tl g2") (auto simp: is_time_groups_def)
  from a g1 g2 show "\<exists>m1 m2 s1 s2 fr. g1 = [m1, m2] \<and> g2 = s1 # s2 # fr \<and> is_digit m1 \<and>
      is_digit m2 \<and> is_digit s1 \<and> is_digit s2 \<and> is_fraction fr"
    by (auto simp: is_time_groups_def)
next
  assume "\<exists>m1 m2 s1 s2 fr. g1 = [m1, m2] \<and> g2 = s1 # s2 # fr \<and> is_digit m1 \<and> is_digit m2 \<and>
      is_digit s1 \<and> is_digit s2 \<and> is_fraction fr"
  then show "is_time_groups g1 g2" by (auto simp: is_time_groups_def)
qed

lemma digits_value_two: "digits_value [d1, d2] = 10 * (d1 - 48) + (d2 - 48)"
  by (simp add: digits_value_def)

lemma digits_value_Nil: "digits_value [] = 0"
  by (simp add: digits_value_def)

lemma digits_value_two_bound: "is_digit d1 \<Longrightarrow> is_digit d2 \<Longrightarrow> digits_value [d1, d2] \<le> 99"
  unfolding digits_value_two is_digit_def by linarith

lemma minutes_value: "of_nat (digits_value [m1, m2]) = 10 * digit_of m1 + digit_of m2"
  by (simp add: digits_value_def digit_of_def)

lemma parseInt10_two:
  assumes "is_digit m1" "is_digit m2"
  shows "parseInt10 [m1, m2] = Finite (10 * digit_of m1 + digit_of m2)"
proof -
  have e: "parseInt10 [m1, m2] = round_double (of_nat (digits_value [m1, m2]))"
    using assms by (simp add: parseInt10_def strip_sign_def digit_facts)
  from digits_value_two_bound [OF assms] have "digits_value [m1, m2] < 2 ^ 53" by simp
  then have r: "round_double (of_nat (digits_value [m1, m2])) = Finite (of_nat (digits_value [m1, m2]))"
    by (rule round_double_nat)
  from e r have "parseInt10 [m1, m2] = Finite (of_nat (digits_value [m1, m2]))" by simp
  then show ?thesis by (simp only: minutes_value)
qed

lemma seconds_value_simps:
  "seconds_value [s1, s2] = 10 * digit_of s1 + digit_of s2"
  "seconds_value [s1, s2, 46, f1, f2] =
     10 * digit_of s1 + digit_of s2 + digit_of f1 / 10 + digit_of f2 / 100"
  "seconds_value [s1, s2, 46, f1, f2, f3] =
     10 * digit_of s1 + digit_of s2 + digit_of f1 / 10 + digit_of f2 / 100 + digit_of f3 / 1000"
  by (simp_all add: seconds_value_def digits_value_def digit_of_def field_simps)

text \<open>\<open>parseFloat\<close> on the seconds of a tag: the double nearest to the decimal number.\<close>

lemma parseFloat_seconds:
  assumes "is_digit s1" "is_digit s2" "is_fraction fr"
  shows "parseFloat (s1 # s2 # fr) = round_double (seconds_value (s1 # s2 # fr))"
proof -
  from assms(3) consider "fr = []" | f1 f2 where "fr = [46, f1, f2]" "is_digit f1" "is_digit f2"
    | f1 f2 f3 where "fr = [46, f1, f2, f3]" "is_digit f1" "is_digit f2" "is_digit f3"
    unfolding is_fraction_iff by blast
  then show ?thesis
  proof cases
    case 1
    with assms show ?thesis
      by (simp add: parseFloat_def strip_sign_def digit_facts exponent_part_def scale10_def
          seconds_value_def digits_value_Nil)
  next
    case 2
    with assms show ?thesis
      by (simp add: parseFloat_def strip_sign_def digit_facts not_digit_consts
          exponent_part_def scale10_def seconds_value_def digits_value_def field_simps)
  next
    case 3
    with assms show ?thesis
      by (simp add: parseFloat_def strip_sign_def digit_facts not_digit_consts
          exponent_part_def scale10_def seconds_value_def digits_value_def field_simps)
  qed
qed

lemma digit_of_bounds: "is_digit c \<Longrightarrow> 0 \<le> digit_of c \<and> digit_of c \<le> 9"
proof -
  assume "is_digit c"
  then have "c - 48 \<le> 9" unfolding is_digit_def by linarith
  then have "(of_nat (c - 48) :: rat) \<le> of_nat 9" by (simp only: of_nat_le_iff)
  then show ?thesis by (simp add: digit_of_def)
qed

lemma seconds_value_bounds:
  assumes "is_digit s1" "is_digit s2" "is_fraction fr"
  shows "0 \<le> seconds_value (s1 # s2 # fr) \<and> seconds_value (s1 # s2 # fr) \<le> 100"
proof -
  from assms(3) consider "fr = []" | f1 f2 where "fr = [46, f1, f2]" "is_digit f1" "is_digit f2"
    | f1 f2 f3 where "fr = [46, f1, f2, f3]" "is_digit f1" "is_digit f2" "is_digit f3"
    unfolding is_fraction_iff by blast
  then show ?thesis
  proof cases
    case 1
    with digit_of_bounds [OF assms(1)] digit_of_bounds [OF assms(2)] show ?thesis
      by (simp add: seconds_value_simps)
  next
    case 2
    with digit_of_bounds [OF assms(1)] digit_of_bounds [OF assms(2)]
      digit_of_bounds [OF 2(2)] digit_of_bounds [OF 2(3)] show ?thesis
      by (simp add: seconds_value_simps)
  next
    case 3
    with digit_of_bounds [OF assms(1)] digit_of_bounds [OF assms(2)]
      digit_of_bounds [OF 3(2)] digit_of_bounds [OF 3(3)] digit_of_bounds [OF 3(4)] show ?thesis
      by (simp add: seconds_value_simps)
  qed
qed

text \<open>On the groups of a match, \<open>minutes * 60 + seconds\<close> is a finite double, the one that
  \<open>tag_seconds\<close> names: the last case of \<open>make_line\<close> is never taken.\<close>

lemma timeRegex_groups_finite:
  assumes "is_time_groups g1 g2"
  shows "js_add (js_mul (parseInt10 g1) (Finite 60)) (parseFloat g2) = Finite (tag_seconds g1 g2)"
proof -
  from assms obtain m1 m2 s1 s2 fr where g: "g1 = [m1, m2]" "g2 = s1 # s2 # fr" "is_digit m1"
    "is_digit m2" "is_digit s1" "is_digit s2" "is_fraction fr"
    unfolding is_time_groups_iff by blast
  let ?D = "digits_value g1"
  from g have D: "?D \<le> 99" by (simp add: digits_value_two_bound)
  from g have m: "parseInt10 g1 = Finite (of_nat ?D)"
    by (simp add: parseInt10_two minutes_value)
  from D have "?D * 60 < 2 ^ 53" by simp
  then have "round_double (of_nat (?D * 60)) = Finite (of_nat (?D * 60))"
    by (rule round_double_nat)
  then have mul: "js_mul (Finite (of_nat ?D)) (Finite 60) = Finite (of_nat ?D * 60)"
    by simp
  from g have sv: "0 \<le> seconds_value g2" "seconds_value g2 \<le> 100"
    using seconds_value_bounds [of s1 s2 fr] by simp_all
  from sv have "seconds_value g2 \<le> 2 ^ 1000"
    by (rule_tac order_trans [where y = 100]) simp_all
  from dbl_bounds [OF sv(1) this]
  have s: "round_double (seconds_value g2) = Finite (dbl (seconds_value g2))"
    "0 \<le> dbl (seconds_value g2)" "dbl (seconds_value g2) \<le> 2 * seconds_value g2 + 1"
    by simp_all
  from g have pf: "parseFloat g2 = Finite (dbl (seconds_value g2))"
    using parseFloat_seconds [of s1 s2 fr] s(1) by simp
  let ?t = "of_nat ?D * 60 + dbl (seconds_value g2)"
  from D have "(of_nat ?D :: rat) \<le> of_nat 99" by (simp only: of_nat_le_iff)
  with s(2,3) sv(2) have t: "0 \<le> ?t" "?t \<le> 6141" by simp_all
  from t(2) have "?t \<le> 2 ^ 1000"
    by (rule_tac order_trans [where y = 6141]) simp_all
  from dbl_bounds [OF t(1) this] have "round_double ?t = Finite (dbl ?t)" by simp
  with m mul pf show ?thesis by (simp add: tag_seconds_def)
qed

text \<open>A tag without a fraction denotes a whole number of seconds, which is a double.\<close>

lemma tag_seconds_whole:
  assumes "is_digit m1" "is_digit m2" "is_digit s1" "is_digit s2"
  shows "tag_seconds [m1, m2] [s1, s2] =
     (10 * digit_of m1 + digit_of m2) * 60 + (10 * digit_of s1 + digit_of s2)"
proof -
  let ?M = "digits_value [m1, m2]" and ?S = "digits_value [s1, s2]"
  from digits_value_two_bound [OF assms(1,2)] digits_value_two_bound [OF assms(3,4)]
  have b: "?S < 2 ^ 53" "?M * 60 + ?S < 2 ^ 53" by simp_all
  have "seconds_value [s1, s2] = of_nat ?S"
    by (simp add: seconds_value_def digits_value_Nil)
  then have "tag_seconds [m1, m2] [s1, s2] = dbl (of_nat ?M * 60 + dbl (of_nat ?S))"
    by (simp add: tag_seconds_def)
  also have "\<dots> = dbl (of_nat (?M * 60 + ?S))"
    using b(1) by (simp add: dbl_nat)
  also have "\<dots> = of_nat (?M * 60 + ?S)"
    using b(2) by (rule dbl_nat)
  finally show ?thesis by (simp add: minutes_value)
qed

lemma tag_seconds_fraction:
  "tag_seconds [m1, m2] [s1, s2, 46, f1, f2] =
     dbl ((10 * digit_of m1 + digit_of m2) * 60 +
          dbl (10 * digit_of s1 + digit_of s2 + digit_of f1 / 10 + digit_of f2 / 100))"
  "tag_seconds [m1, m2] [s1, s2, 46, f1, f2, f3] =
     dbl ((10 * digit_of m1 + digit_of m2) * 60 +
          dbl (10 * digit_of s1 + digit_of s2 + digit_of f1 / 10 + digit_of f2 / 100 +
               digit_of f3 / 1000))"
  by (simp_all only: tag_seconds_def minutes_value seconds_value_simps)

subsection \<open>What timeRegex matches\<close>

lemma timeRegex_close_Some: "timeRegex_close r = Some rest \<longleftrightarrow> r = 93 # rest"
  by (auto simp: timeRegex_close_def split: list.splits)

lemma timeRegex_frac_Some:
  "timeRegex_frac n r = Some (fr, rest) \<longleftrightarrow>
   (\<exists>ds. length ds = n \<and> list_all is_digit ds \<and> fr = 46 # ds \<and> r = 46 # ds @ 93 # rest)"
proof
  assume a: "timeRegex_frac n r = Some (fr, rest)"
  then obtain r' where r: "r = 46 # r'" "length (take n r') = n" "list_all is_digit (take n r')"
    "drop n r' = 93 # rest" "fr = 46 # take n r'"
    by (auto simp: timeRegex_frac_def timeRegex_close_Some split: list.splits if_splits)
  have "r' = take n r' @ drop n r'" by simp
  with r show "\<exists>ds. length ds = n \<and> list_all is_digit ds \<and> fr = 46 # ds \<and> r = 46 # ds @ 93 # rest"
    by (intro exI [of _ "take n r'"]) auto
next
  assume "\<exists>ds. length ds = n \<and> list_all is_digit ds \<and> fr = 46 # ds \<and> r = 46 # ds @ 93 # rest"
  then show "timeRegex_frac n r = Some (fr, rest)"
    by (auto simp: timeRegex_frac_def timeRegex_close_def)
qed

lemma timeRegex_tail_Some:
  "timeRegex_tail r = Some (fr, rest) \<longleftrightarrow> is_fraction fr \<and> r = fr @ 93 # rest"
proof
  assume "timeRegex_tail r = Some (fr, rest)"
  then consider "timeRegex_frac 3 r = Some (fr, rest)" | "timeRegex_frac 2 r = Some (fr, rest)"
    | "fr = []" "timeRegex_close r = Some rest"
    by (auto simp: timeRegex_tail_def split: option.splits)
  then show "is_fraction fr \<and> r = fr @ 93 # rest"
    by cases (auto simp: timeRegex_frac_Some timeRegex_close_Some is_fraction_def)
next
  assume a: "is_fraction fr \<and> r = fr @ 93 # rest"
  then consider "fr = []" | f1 f2 where "fr = [46, f1, f2]" "is_digit f1" "is_digit f2"
    | f1 f2 f3 where "fr = [46, f1, f2, f3]" "is_digit f1" "is_digit f2" "is_digit f3"
    unfolding is_fraction_iff by blast
  then show "timeRegex_tail r = Some (fr, rest)"
  proof cases
    case 1
    with a show ?thesis by (simp add: timeRegex_tail_def timeRegex_frac_def timeRegex_close_def)
  next
    case 2
    with a show ?thesis
      by (auto simp: timeRegex_tail_def timeRegex_frac_def timeRegex_close_def is_digit_def)
  next
    case 3
    with a show ?thesis
      by (auto simp: timeRegex_tail_def timeRegex_frac_def timeRegex_close_def is_digit_def)
  qed
qed

lemma timeRegex_at_Some:
  "timeRegex_at s = Some (g1, g2, rest) \<longleftrightarrow> is_time_groups g1 g2 \<and> s = time_tag g1 g2 @ rest"
proof
  assume a: "timeRegex_at s = Some (g1, g2, rest)"
  then obtain lb m1 m2 co s1 s2 r where s: "s = lb # m1 # m2 # co # s1 # s2 # r"
    by (cases s rule: timeRegex_at.cases) auto
  with a obtain fr where "lb = 91" "is_digit m1" "is_digit m2" "co = 58" "is_digit s1" "is_digit s2"
    "timeRegex_tail r = Some (fr, rest)" "g1 = [m1, m2]" "g2 = s1 # s2 # fr"
    by (auto split: if_splits)
  with s show "is_time_groups g1 g2 \<and> s = time_tag g1 g2 @ rest"
    by (auto simp: timeRegex_tail_Some is_time_groups_iff time_tag_def)
next
  assume a: "is_time_groups g1 g2 \<and> s = time_tag g1 g2 @ rest"
  then obtain m1 m2 s1 s2 fr where g: "g1 = [m1, m2]" "is_digit m1" "is_digit m2"
    "g2 = s1 # s2 # fr" "is_digit s1" "is_digit s2" "is_fraction fr"
    unfolding is_time_groups_iff by blast
  then have "timeRegex_tail (fr @ 93 # rest) = Some (fr, rest)"
    by (simp add: timeRegex_tail_Some)
  with a g show "timeRegex_at s = Some (g1, g2, rest)"
    by (simp add: time_tag_def)
qed

lemma time_tag_no_inner_bracket:
  assumes "is_time_groups g1 g2"
  shows "91 \<notin> set (tl (time_tag g1 g2))"
proof -
  from assms obtain m1 m2 s1 s2 fr where g: "g1 = [m1, m2]" "is_digit m1" "is_digit m2"
    "g2 = s1 # s2 # fr" "is_digit s1" "is_digit s2" "is_fraction fr"
    unfolding is_time_groups_iff by blast
  have "91 \<notin> set fr" using g(7)
    by (auto simp: is_fraction_iff dest: digit_facts)
  with g show ?thesis by (auto simp: time_tag_def dest: digit_facts)
qed

text \<open>A tag cannot begin before an opening bracket and run across it.\<close>

lemma timeRegex_at_append_None:
  assumes "timeRegex_at x = None" "x \<noteq> []"
  shows "timeRegex_at (x @ 91 # r) = None"
proof (rule ccontr)
  assume "timeRegex_at (x @ 91 # r) \<noteq> None"
  then obtain g1 g2 rest where m: "timeRegex_at (x @ 91 # r) = Some (g1, g2, rest)" by auto
  then have g: "is_time_groups g1 g2" and e: "x @ 91 # r = time_tag g1 g2 @ rest"
    by (simp_all add: timeRegex_at_Some)
  let ?t = "time_tag g1 g2"
  have tne: "?t \<noteq> []" by (simp add: time_tag_def)
  show False
  proof (cases "length x < length ?t")
    case True
    from e have "(x @ 91 # r) ! length x = (?t @ rest) ! length x" by simp
    with True have "?t ! length x = 91" by (simp add: nth_append)
    moreover from assms(2) True tne have "?t ! length x = tl ?t ! (length x - 1)"
      by (cases ?t; cases x) auto
    moreover from assms(2) True tne have "length x - 1 < length (tl ?t)"
      by (cases x) auto
    ultimately have "91 \<in> set (tl ?t)" by (metis nth_mem)
    with time_tag_no_inner_bracket [OF g] show False by simp
  next
    case False
    with e obtain x' where "x = ?t @ x'"
      by (metis append_eq_append_conv_if append_take_drop_id not_less)
    with g have "timeRegex_at x = Some (g1, g2, x')" by (simp add: timeRegex_at_Some)
    with assms(1) show False by simp
  qed
qed

text \<open>\<open>timeRegex_exec\<close> finds the leftmost tag.\<close>

lemma timeRegex_exec_leftmost:
  assumes "timeRegex_exec pre = None" "is_time_groups g1 g2"
  shows "timeRegex_exec (pre @ time_tag g1 g2 @ rest) = Some (pre, g1, g2, rest)"
  using assms(1)
proof (induction pre)
  case Nil
  from assms(2) have "timeRegex_at (time_tag g1 g2 @ rest) = Some (g1, g2, rest)"
    by (simp add: timeRegex_at_Some)
  then show ?case by (simp add: time_tag_def)
next
  case (Cons c cs)
  from Cons.prems have a: "timeRegex_at (c # cs) = None" and b: "timeRegex_exec cs = None"
    by (auto split: option.splits)
  have "timeRegex_at ((c # cs) @ 91 # (g1 @ 58 # g2 @ [93]) @ rest) = None"
    by (rule timeRegex_at_append_None [OF a]) simp
  then have "timeRegex_at (c # cs @ time_tag g1 g2 @ rest) = None"
    by (simp add: time_tag_def)
  with Cons.IH [OF b] show ?case by simp
qed

lemma timeRegex_exec_Some:
  "timeRegex_exec s = Some (pre, g1, g2, rest) \<Longrightarrow>
   is_time_groups g1 g2 \<and> s = pre @ time_tag g1 g2 @ rest \<and> timeRegex_exec pre = None"
proof (induction s arbitrary: pre)
  case Nil
  then show ?case by simp
next
  case (Cons c cs)
  show ?case
  proof (cases "timeRegex_at (c # cs)")
    case (Some m)
    with Cons.prems have "timeRegex_at (c # cs) = Some (g1, g2, rest)" "pre = []"
      by (auto split: prod.splits)
    then show ?thesis by (simp add: timeRegex_at_Some)
  next
    case None
    with Cons.prems obtain pre' where p: "timeRegex_exec cs = Some (pre', g1, g2, rest)" "pre = c # pre'"
      by auto
    from Cons.IH [OF p(1)] have ih: "is_time_groups g1 g2" "cs = pre' @ time_tag g1 g2 @ rest"
      "timeRegex_exec pre' = None" by auto
    have "timeRegex_at (c # pre') = None"
    proof (rule ccontr)
      assume "timeRegex_at (c # pre') \<noteq> None"
      then obtain h1 h2 r' where "timeRegex_at (c # pre') = Some (h1, h2, r')" by auto
      then have "is_time_groups h1 h2" "c # pre' = time_tag h1 h2 @ r'"
        by (simp_all add: timeRegex_at_Some)
      then have "timeRegex_at (c # cs) = Some (h1, h2, r' @ time_tag g1 g2 @ rest)"
        using ih(2) by (simp add: timeRegex_at_Some)
      with None show False by simp
    qed
    with ih p(2) show ?thesis by simp
  qed
qed

text \<open>A string without a match is a string that contains no tag.\<close>

lemma timeRegex_exec_None_iff:
  "timeRegex_exec s = None \<longleftrightarrow>
   \<not> (\<exists>a g1 g2 b. is_time_groups g1 g2 \<and> s = a @ time_tag g1 g2 @ b)"
proof
  assume n: "timeRegex_exec s = None"
  show "\<not> (\<exists>a g1 g2 b. is_time_groups g1 g2 \<and> s = a @ time_tag g1 g2 @ b)"
  proof
    assume "\<exists>a g1 g2 b. is_time_groups g1 g2 \<and> s = a @ time_tag g1 g2 @ b"
    then obtain a g1 g2 b where g: "is_time_groups g1 g2" and s: "s = a @ time_tag g1 g2 @ b"
      by blast
    have "timeRegex_exec (a @ time_tag g1 g2 @ b) \<noteq> None"
    proof (induction a)
      case Nil
      from g have "timeRegex_at (time_tag g1 g2 @ b) = Some (g1, g2, b)"
        by (simp add: timeRegex_at_Some)
      then show ?case by (simp add: time_tag_def)
    next
      case (Cons x xs)
      then show ?case by (auto split: option.splits)
    qed
    with n s show False by simp
  qed
next
  assume h: "\<not> (\<exists>a g1 g2 b. is_time_groups g1 g2 \<and> s = a @ time_tag g1 g2 @ b)"
  show "timeRegex_exec s = None"
  proof (rule ccontr)
    assume "timeRegex_exec s \<noteq> None"
    then obtain pre g1 g2 rest where "timeRegex_exec s = Some (pre, g1, g2, rest)" by auto
    from timeRegex_exec_Some [OF this] h show False by blast
  qed
qed

subsection \<open>What styleRegex matches\<close>

lemma styleRegex_body_iff:
  "styleRegex_body s = Some (g, rest) \<longleftrightarrow>
   s = g @ 125 # rest \<and> 125 \<notin> set g \<and> (\<forall>x\<in>set g. \<not> is_line_terminator x)"
proof (induction s arbitrary: g)
  case Nil
  show ?case by simp
next
  case (Cons c cs)
  show ?case
  proof (cases "c = 125")
    case True
    then show ?thesis by (cases g) auto
  next
    case False
    note nc = this
    show ?thesis
    proof (cases "is_line_terminator c")
      case True
      with nc show ?thesis by (cases g) auto
    next
      case False
      with nc Cons.IH show ?thesis by (cases g) auto
    qed
  qed
qed

lemma styleRegex_body_exists:
  "\<forall>x\<in>set c. \<not> is_line_terminator x \<Longrightarrow> styleRegex_body (c @ 125 # b) \<noteq> None"
  by (induction c) auto

lemma styleRegex_exec_Some:
  "styleRegex_exec s = Some (pre, g, rest) \<Longrightarrow>
   s = pre @ 123 # g @ 125 # rest \<and> 125 \<notin> set g \<and> (\<forall>x\<in>set g. \<not> is_line_terminator x)"
proof (induction s arbitrary: pre)
  case Nil
  then show ?case by simp
next
  case (Cons c cs)
  show ?case
  proof (cases "if c = 123 then styleRegex_body cs else None")
    case (Some m)
    with Cons.prems have "c = 123" "styleRegex_body cs = Some (g, rest)" "pre = []"
      by (auto split: if_splits)
    then show ?thesis by (simp add: styleRegex_body_iff)
  next
    case None
    with Cons.prems obtain pre' where "styleRegex_exec cs = Some (pre', g, rest)" "pre = c # pre'"
      by auto
    with Cons.IH [of pre'] show ?thesis by simp
  qed
qed

lemma styleRegex_exec_None_iff: "styleRegex_exec s = None \<longleftrightarrow> \<not> has_annotation s"
proof
  assume n: "styleRegex_exec s = None"
  show "\<not> has_annotation s"
  proof
    assume "has_annotation s"
    then obtain a c b where s: "s = a @ 123 # c @ 125 # b" and c: "\<forall>x\<in>set c. \<not> is_line_terminator x"
      unfolding has_annotation_def by blast
    have "styleRegex_exec (a @ 123 # c @ 125 # b) \<noteq> None"
    proof (induction a)
      case Nil
      from styleRegex_body_exists [OF c, of b] show ?case by auto
    next
      case (Cons x xs)
      then show ?case by (auto split: option.splits)
    qed
    with n s show False by simp
  qed
next
  assume h: "\<not> has_annotation s"
  show "styleRegex_exec s = None"
  proof (rule ccontr)
    assume "styleRegex_exec s \<noteq> None"
    then obtain pre g rest where "styleRegex_exec s = Some (pre, g, rest)" by auto
    from styleRegex_exec_Some [OF this] have "has_annotation s"
      unfolding has_annotation_def by blast
    with h show False by simp
  qed
qed

lemma styleRegex_exec_first:
  assumes "123 \<notin> set a" "125 \<notin> set c" "\<forall>x\<in>set c. \<not> is_line_terminator x"
  shows "styleRegex_exec (a @ 123 # c @ 125 # b) = Some (a, c, b)"
  using assms(1)
proof (induction a)
  case Nil
  from assms(2,3) have "styleRegex_body (c @ 125 # b) = Some (c, b)"
    by (simp add: styleRegex_body_iff)
  then show ?case by simp
next
  case (Cons x xs)
  then show ?case by auto
qed

subsection \<open>The pairs of a style annotation\<close>

lemma style_pair_no_colon: "58 \<notin> set seg \<Longrightarrow> style_pair m seg = m"
  by (simp add: style_pair_def split_no_sep)

lemma style_pair_two:
  assumes "58 \<notin> set k" "58 \<notin> set v"
  shows "style_pair m (k @ 58 # v) =
     (if trim k \<noteq> [] \<and> trim v \<noteq> []
      then object_set m (trim k)
             (if parseFloat (trim v) = NaN then Str (trim v) else Number (parseFloat (trim v)))
      else m)"
  using assms by (simp add: style_pair_def split_head split_no_sep isNaN_def Let_def)

lemma style_pair_more:
  assumes "58 \<notin> set k" "58 \<notin> set v"
  shows "style_pair m (k @ 58 # v @ 58 # w) = style_pair m (k @ 58 # v)"
  using assms by (simp add: style_pair_def split_head split_no_sep isNaN_def Let_def)

lemma style_pair_malformed: "malformed_pair seg \<Longrightarrow> style_pair m seg = m"
  by (auto simp: style_pair_def malformed_pair_def split: list.splits)

lemma foldl_style_pair_malformed:
  "\<forall>seg\<in>set segs. malformed_pair seg \<Longrightarrow> foldl style_pair m segs = m"
  by (induction segs arbitrary: m) (auto simp: style_pair_malformed)

lemma parse_style_single: "44 \<notin> set seg \<Longrightarrow> parse_style seg = style_pair Map.empty seg"
  by (simp add: parse_style_def split_no_sep)

lemma parse_style_snoc:
  "44 \<notin> set seg \<Longrightarrow> parse_style (c @ 44 # seg) = style_pair (parse_style c) seg"
  by (simp add: parse_style_def split_append split_no_sep)

subsection \<open>The conversion of a style value\<close>

lemma takeWhile_digit_Nil: "takeWhile is_digit u = [] \<longleftrightarrow> u = [] \<or> \<not> is_digit (hd u)"
  by (cases u) auto

lemma parseFloat_NaN_iff: "parseFloat s = NaN \<longleftrightarrow> \<not> has_numeric_prefix s"
proof -
  note [simp] = round_double_not_NaN
  obtain neg u where su: "strip_sign (dropWhile is_white_space s) = (neg, u)"
    by (cases "strip_sign (dropWhile is_white_space s)")
  show ?thesis
  proof (cases "take 8 u = [73, 110, 102, 105, 110, 105, 116, 121]")
    case True
    with su show ?thesis by (simp add: parseFloat_def has_numeric_prefix_def)
  next
    case inf: False
    show ?thesis
    proof (cases u)
      case Nil
      with su inf show ?thesis by (simp add: parseFloat_def has_numeric_prefix_def)
    next
      case (Cons c r)
      show ?thesis
      proof (cases "is_digit c")
        case True
        with su inf Cons show ?thesis
          by (simp add: parseFloat_def has_numeric_prefix_def Let_def)
      next
        case nd: False
        show ?thesis
        proof (cases "c = 46")
          case True
          with su inf Cons nd show ?thesis
            by (cases r) (auto simp: parseFloat_def has_numeric_prefix_def Let_def takeWhile_digit_Nil)
        next
          case False
          with su inf Cons nd show ?thesis
            by (simp add: parseFloat_def has_numeric_prefix_def Let_def)
        qed
      qed
    qed
  qed
qed

text \<open>A run of digits followed by something that continues no literal is converted to the
  double of the number the digits denote; what follows is dropped.\<close>

lemma parseFloat_digits:
  assumes "ds \<noteq> []" "list_all is_digit ds"
    "rest = [] \<or> (\<not> is_digit (hd rest) \<and> hd rest \<noteq> 46 \<and> hd rest \<noteq> 101 \<and> hd rest \<noteq> 69)"
  shows "parseFloat (ds @ rest) = round_double (of_nat (digits_value ds))"
proof -
  from assms(1) obtain d ds' where ds: "ds = d # ds'" by (cases ds) auto
  with assms(2) have d: "is_digit d" by simp
  have tw: "takeWhile is_digit (ds @ rest) = ds"
  proof (cases rest)
    case Nil
    with assms(2) show ?thesis by (simp add: list_all_iff)
  next
    case (Cons x xs)
    with assms(2,3) show ?thesis by (simp add: takeWhile_append2 list_all_iff)
  qed
  have dw: "dropWhile is_digit (ds @ rest) = rest"
  proof (cases rest)
    case Nil
    with assms(2) show ?thesis by (simp add: list_all_iff)
  next
    case (Cons x xs)
    with assms(2,3) show ?thesis by (simp add: dropWhile_append2 list_all_iff)
  qed
  have ws: "dropWhile is_white_space (ds @ rest) = ds @ rest"
    using ds d by (simp add: digit_facts)
  have sg: "strip_sign (ds @ rest) = (False, ds @ rest)"
    using ds d by (simp add: strip_sign_def digit_facts)
  have inf: "take 8 (ds @ rest) \<noteq> [73, 110, 102, 105, 110, 105, 116, 121]"
    using ds d by (auto simp: take_Cons' dest: digit_facts)
  have ex: "exponent_part rest = 0"
    using assms(3) by (cases rest) (auto simp: exponent_part_def)
  have dot: "(rest \<noteq> [] \<and> hd rest = 46) = False" using assms(3) by auto
  show ?thesis
    unfolding parseFloat_def ws sg using inf assms(1)
    by (simp add: tw dw dot ex scale10_def Let_def)
qed

subsection \<open>One line\<close>

lemma make_line_groups:
  assumes "is_time_groups g1 g2"
  shows "make_line pre g1 g2 post =
     Some (case styleRegex_exec (trim (pre @ post)) of
             None \<Rightarrow> \<lparr>lineTime = tag_seconds g1 g2, text' = trim (pre @ post), style = None\<rparr>
           | Some (sp, c, sr) \<Rightarrow>
               \<lparr>lineTime = tag_seconds g1 g2, text' = trim (sp @ sr), style = Some (parse_style c)\<rparr>)"
  using timeRegex_groups_finite [OF assms]
  by (simp add: make_line_def Let_def split: option.splits)

lemma parse_line_tagged:
  assumes "timeRegex_exec pre = None" "is_time_groups g1 g2"
  shows "parse_line (pre @ time_tag g1 g2 @ post) =
     Some (case styleRegex_exec (trim (pre @ post)) of
             None \<Rightarrow> \<lparr>lineTime = tag_seconds g1 g2, text' = trim (pre @ post), style = None\<rparr>
           | Some (sp, c, sr) \<Rightarrow>
               \<lparr>lineTime = tag_seconds g1 g2, text' = trim (sp @ sr), style = Some (parse_style c)\<rparr>)"
  using timeRegex_exec_leftmost [OF assms, of post] make_line_groups [OF assms(2), of pre post]
  by (simp add: parse_line_def)

lemma parse_line_None_iff: "parse_line line = None \<longleftrightarrow> timeRegex_exec line = None"
proof (cases "timeRegex_exec line")
  case None
  then show ?thesis by (simp add: parse_line_def)
next
  case (Some m)
  then obtain pre g1 g2 rest where m: "timeRegex_exec line = Some (pre, g1, g2, rest)"
    by (cases m) auto
  from timeRegex_exec_Some [OF m] have "is_time_groups g1 g2" by simp
  from make_line_groups [OF this, of pre rest] m show ?thesis
    by (simp add: parse_line_def)
qed

subsection \<open>The loop over the lines and the sort\<close>

lemma parse_lines_acc: "parse_lines ls acc = acc @ parse_lines ls []"
proof (induction ls arbitrary: acc)
  case Nil
  show ?case by simp
next
  case (Cons l ls)
  show ?case
  proof (cases "parse_line l")
    case None
    then show ?thesis using Cons.IH [of acc] by simp
  next
    case (Some x)
    then show ?thesis using Cons.IH [of "acc @ [x]"] Cons.IH [of "[x]"] by simp
  qed
qed

lemma parse_lines_map_filter: "parse_lines ls [] = List.map_filter parse_line ls"
proof (induction ls)
  case Nil
  show ?case by (simp add: map_filter_simps)
next
  case (Cons l ls)
  then show ?case
    using parse_lines_acc [of ls "[the (parse_line l)]"]
    by (auto simp: map_filter_simps split: option.splits)
qed

lemma parseLrc_lines:
  "parseLrc content = array_sort (List.map_filter parse_line (split 10 content))"
  by (simp add: parseLrc_def parse_lines_map_filter)

lemma parseLrc_single:
  "10 \<notin> set line \<Longrightarrow> parseLrc line = (case parse_line line of None \<Rightarrow> [] | Some l \<Rightarrow> [l])"
  by (simp add: parseLrc_lines split_no_sep map_filter_simps array_sort_def split: option.splits)

lemma set_sort_insert: "set (sort_insert a bs) = insert a (set bs)"
  by (induction bs) auto

lemma length_sort_insert: "length (sort_insert a bs) = Suc (length bs)"
  by (induction bs) auto

lemma set_array_sort: "set (array_sort xs) = set xs"
  unfolding array_sort_def by (induction xs) (auto simp: set_sort_insert)

lemma length_array_sort: "length (array_sort xs) = length xs"
  unfolding array_sort_def by (induction xs) (auto simp: length_sort_insert)

lemma sorted_sort_insert:
  "sorted (map lineTime bs) \<Longrightarrow> sorted (map lineTime (sort_insert a bs))"
  by (induction bs) (auto simp: compareFn_def set_sort_insert)

lemma sorted_array_sort: "sorted (map lineTime (array_sort xs))"
  unfolding array_sort_def by (induction xs) (auto intro: sorted_sort_insert)

lemma line_emitted:
  "line \<in> set (split 10 content) \<Longrightarrow> parse_line line = Some l \<Longrightarrow> l \<in> set (parseLrc content)"
  by (force simp: parseLrc_lines set_array_sort List.map_filter_def)

lemma length_parseLrc:
  "length (parseLrc content) =
   length (filter (\<lambda>line. timeRegex_exec line \<noteq> None) (split 10 content))"
proof -
  have "(\<lambda>line. parse_line line \<noteq> None) = (\<lambda>line. timeRegex_exec line \<noteq> None)"
    by (simp only: parse_line_None_iff)
  then have "length (List.map_filter parse_line ls) =
        length (filter (\<lambda>line. timeRegex_exec line \<noteq> None) ls)" for ls
    by (simp add: List.map_filter_def)
  then show ?thesis by (simp add: parseLrc_lines length_array_sort)
qed

subsection \<open>The backward scan\<close>

lemma loop_None:
  "(getCurrentLine_loop n lines t = None) = (\<forall>j<n. \<not> lineTime (lines ! j) \<le> t)"
  by (induction n) (auto simp: less_Suc_eq)

lemma loop_Some:
  "getCurrentLine_loop n lines t = Some l \<Longrightarrow>
   \<exists>i<n. l = lines ! i \<and> lineTime (lines ! i) \<le> t \<and>
          (\<forall>j. i < j \<and> j < n \<longrightarrow> \<not> lineTime (lines ! j) \<le> t)"
proof (induction n)
  case 0
  then show ?case by simp
next
  case (Suc n)
  show ?case
  proof (cases "lineTime (lines ! n) \<le> t")
    case True
    with Suc.prems have "l = lines ! n" by simp
    with True show ?thesis by (intro exI [of _ n]) auto
  next
    case False
    with Suc.prems have "getCurrentLine_loop n lines t = Some l" by simp
    from Suc.IH [OF this] obtain i where i: "i < n" "l = lines ! i" "lineTime (lines ! i) \<le> t"
      "\<forall>j. i < j \<and> j < n \<longrightarrow> \<not> lineTime (lines ! j) \<le> t" by blast
    with False show ?thesis by (intro exI [of _ i]) (auto simp: less_Suc_eq)
  qed
qed

lemma loop_filter:
  assumes "n \<le> length lines"
  shows "getCurrentLine_loop n lines t =
     (case filter (\<lambda>l. lineTime l \<le> t) (take n lines) of
        [] \<Rightarrow> None
      | q # qs \<Rightarrow> Some (last (q # qs)))"
  using assms
proof (induction n)
  case 0
  show ?case by simp
next
  case (Suc n)
  then have t: "take (Suc n) lines = take n lines @ [lines ! n]"
    by (simp add: take_Suc_conv_app_nth)
  from Suc show ?case unfolding t by (auto split: list.splits)
qed

subsection \<open>Lines with and without a tag\<close>

text \<open>\<open>timeRegex\<close> matches in a string exactly when the string contains a well-formed tag.\<close>

lemma no_time_tag_iff: "\<not> contains_time_tag s \<longleftrightarrow> timeRegex_exec s = None"
  unfolding contains_time_tag_def using timeRegex_exec_None_iff [of s] by blast

lemma contains_time_tag_iff: "contains_time_tag s \<longleftrightarrow> timeRegex_exec s \<noteq> None"
  using no_time_tag_iff [of s] by auto

lemma trim_Nil: "trim [] = []"
  by (simp add: trim_def)

text \<open>A line with a tag gives exactly the object that the loop body builds from the text
  around the leftmost tag, and that object is in the result.\<close>

lemma tagged_line_emitted:
  assumes "line \<in> set (split 10 lrcContent)" "\<not> contains_time_tag pre" "is_time_groups g1 g2"
    "line = pre @ time_tag g1 g2 @ post"
  shows "\<exists>l\<in>set (parseLrc lrcContent). parse_line line = Some l \<and>
     l = (case styleRegex_exec (trim (pre @ post)) of
             None \<Rightarrow> \<lparr>lineTime = tag_seconds g1 g2, text' = trim (pre @ post), style = None\<rparr>
           | Some (sp, c, sr) \<Rightarrow>
               \<lparr>lineTime = tag_seconds g1 g2, text' = trim (sp @ sr), style = Some (parse_style c)\<rparr>)"
proof -
  from assms(2) have "timeRegex_exec pre = None"
    by (simp only: no_time_tag_iff)
  from parse_line_tagged [OF this assms(3), of post] line_emitted [OF assms(1)] assms(4)
  show ?thesis by auto
qed

text \<open>A line that yields no entry can be taken out of the input.\<close>

lemma parseLrc_drop_line:
  assumes "parse_line line = None" "10 \<notin> set line"
  shows "parseLrc (a @ 10 # line @ 10 # b) = parseLrc (a @ 10 # b)"
proof -
  have "split 10 (a @ 10 # line @ 10 # b) = split 10 a @ line # split 10 b"
    using assms(2) by (simp add: split_append split_no_sep)
  moreover have "split 10 (a @ 10 # b) = split 10 a @ split 10 b"
    by (simp add: split_append)
  ultimately show ?thesis
    using assms(1) by (simp add: parseLrc_lines List.map_filter_def)
qed

text \<open>A value that is a decimal literal as a whole begins with one.\<close>

lemma whole_numeric_value_prefix:
  assumes "whole_numeric_value s"
  shows "has_numeric_prefix s"
proof -
  have nw: "dropWhile is_white_space s = s"
  proof (cases s)
    case Nil
    then show ?thesis by simp
  next
    case (Cons c cs)
    have "\<not> is_white_space c"
    proof
      assume w: "is_white_space c"
      then have "\<not> is_digit c" "c \<noteq> 45" "c \<noteq> 43" "c \<noteq> 46" "c \<noteq> 73"
        by (auto simp: is_white_space_def is_digit_def is_line_terminator_def)
      with Cons have "literal_rest s = None"
        by (simp add: literal_rest_def strip_sign_def Let_def)
      with assms show False by (simp add: whole_numeric_value_def)
    qed
    with Cons show ?thesis by simp
  qed
  obtain neg u where su: "strip_sign s = (neg, u)" by (cases "strip_sign s")
  show ?thesis
  proof (cases "take 8 u = [73, 110, 102, 105, 110, 105, 116, 121]")
    case True
    with su nw show ?thesis by (simp add: has_numeric_prefix_def)
  next
    case inf: False
    from assms su inf have ne: "\<not> (takeWhile is_digit u = [] \<and>
        (if dropWhile is_digit u \<noteq> [] \<and> hd (dropWhile is_digit u) = 46
         then takeWhile is_digit (tl (dropWhile is_digit u)) else []) = [])"
      by (auto simp: whole_numeric_value_def literal_rest_def Let_def split: if_splits)
    show ?thesis
    proof (cases u)
      case Nil
      with ne show ?thesis by simp
    next
      case (Cons c r)
      show ?thesis
      proof (cases "is_digit c")
        case True
        with su nw Cons show ?thesis by (simp add: has_numeric_prefix_def)
      next
        case False
        with ne Cons have "c = 46" "takeWhile is_digit r \<noteq> []"
          by (auto split: if_splits)
        then obtain d r' where "r = d # r'" "is_digit d"
          by (cases r) (auto split: if_splits)
        with su nw Cons \<open>c = 46\<close> show ?thesis by (simp add: has_numeric_prefix_def)
      qed
    qed
  qed
qed

subsection \<open>Evaluation\<close>

text \<open>The definitions that the simplifier unfolds to run the model on a concrete input,
  with the equations that compute \<open>bit_length\<close>, the floor and the ceiling on numerals.\<close>

lemma floor_rat_numeral: "\<lfloor>numeral a / numeral b :: rat\<rfloor> = numeral a div numeral b"
  by (metis floor_divide_of_int_eq of_int_numeral)

lemma ceiling_rat_numeral: "\<lceil>numeral a / numeral b :: rat\<rceil> = - (- numeral a div numeral b)"
  unfolding ceiling_def
  by (metis floor_divide_of_int_eq of_int_numeral of_int_minus minus_divide_left)

lemma bit_length_numeral:
  "bit_length (numeral k) = Suc (bit_length (numeral k div 2))"
  "bit_length 0 = 0"
  "bit_length 1 = 1"
  by (simp_all add: bit_length.simps)

lemmas round_defs = round_double_def round_magnitude_def ilog2_def round_even_def pow2_def
  Let_def bit_length_numeral floor_rat_numeral ceiling_rat_numeral dbl_def

lemmas eval_defs = js_def is_digit_def is_line_terminator_def is_white_space_def trim_def
  isNaN_def digits_value_def strip_sign_def parseInt10_def exponent_part_def scale10_def
  parseFloat_def timeRegex_close_def timeRegex_frac_def timeRegex_tail_def proto_key_def
  object_set_def style_pair_def parse_style_def make_line_def parse_line_def compareFn_def
  array_sort_def parseLrc_def getCurrentLine_def round_defs

section \<open>The claims\<close>

text \<open>
  C1.  For lines sorted ascending by \<open>lineTime\<close> and any query time, \<open>getCurrentLine\<close> returns
  the last line of the sequence whose \<open>lineTime\<close> is at most the time: its \<open>lineTime\<close> is the
  greatest one not exceeding the time, and among lines that share it the latest in the sequence
  is returned.  When no line has started (in particular for the empty sequence) the result is
  absent.  For lines at 5, 10 and 15: the query 7 gives the line at 5, 15 and 15.001 give the
  line at 15, and 3 gives nothing.
\<close>

theorem getCurrentLine_last_started:
  assumes "sorted (map lineTime lines)"
  shows "(if \<exists>l\<in>set lines. lineTime l \<le> t
          then \<exists>i<length lines.
                 getCurrentLine lines t = Some (lines ! i) \<and> lineTime (lines ! i) \<le> t \<and>
                 (\<forall>j<length lines. lineTime (lines ! j) \<le> t \<longrightarrow>
                    j \<le> i \<and> lineTime (lines ! j) \<le> lineTime (lines ! i))
          else getCurrentLine lines t = None) \<and>
         getCurrentLine lines t =
           (case filter (\<lambda>l. lineTime l \<le> t) lines of
              [] \<Rightarrow> None
            | q # qs \<Rightarrow> Some (last (q # qs))) \<and>
         getCurrentLine [] t = None \<and>
         (let l5 = \<lparr>lineTime = 5, text' = x5, style = y5\<rparr>;
              l10 = \<lparr>lineTime = 10, text' = x10, style = y10\<rparr>;
              l15 = \<lparr>lineTime = 15, text' = x15, style = y15\<rparr>
          in getCurrentLine [l5, l10, l15] 7 = Some l5 \<and>
             getCurrentLine [l5, l10, l15] 15 = Some l15 \<and>
             getCurrentLine [l5, l10, l15] 3 = None \<and>
             getCurrentLine [l5, l10, l15] (15001 / 1000) = Some l15)"
proof -
  have first: "if \<exists>l\<in>set lines. lineTime l \<le> t
          then \<exists>i<length lines.
                 getCurrentLine lines t = Some (lines ! i) \<and> lineTime (lines ! i) \<le> t \<and>
                 (\<forall>j<length lines. lineTime (lines ! j) \<le> t \<longrightarrow>
                    j \<le> i \<and> lineTime (lines ! j) \<le> lineTime (lines ! i))
          else getCurrentLine lines t = None"
  proof (cases "\<exists>l\<in>set lines. lineTime l \<le> t")
    case False
    then have "\<forall>j<length lines. \<not> lineTime (lines ! j) \<le> t" by auto
    then have "getCurrentLine lines t = None"
      unfolding getCurrentLine_def by (simp add: loop_None)
    with False show ?thesis by simp
  next
    case True
    then obtain j0 where "j0 < length lines" "lineTime (lines ! j0) \<le> t"
      by (auto simp: in_set_conv_nth)
    then have "getCurrentLine_loop (length lines) lines t \<noteq> None"
      by (auto simp: loop_None)
    then obtain l where l: "getCurrentLine_loop (length lines) lines t = Some l" by auto
    from loop_Some [OF l] obtain i where i: "i < length lines" "l = lines ! i"
      "lineTime (lines ! i) \<le> t"
      "\<forall>j. i < j \<and> j < length lines \<longrightarrow> \<not> lineTime (lines ! j) \<le> t"
      by blast
    have "j \<le> i \<and> lineTime (lines ! j) \<le> lineTime (lines ! i)"
      if "j < length lines" "lineTime (lines ! j) \<le> t" for j
    proof -
      from that i(4) have ji: "j \<le> i" by (meson not_le_imp_less)
      from assms ji i(1) have "map lineTime lines ! j \<le> map lineTime lines ! i"
        by (intro sorted_nth_mono) auto
      with ji that(1) i(1) show ?thesis by simp
    qed
    with True l i show ?thesis unfolding getCurrentLine_def by auto
  qed
  have second: "getCurrentLine lines t =
           (case filter (\<lambda>l. lineTime l \<le> t) lines of
              [] \<Rightarrow> None
            | q # qs \<Rightarrow> Some (last (q # qs)))"
    unfolding getCurrentLine_def using loop_filter [of "length lines" lines t] by simp
  have third: "getCurrentLine [] t = None" by (simp add: getCurrentLine_def)
  have fourth: "(let l5 = \<lparr>lineTime = 5, text' = x5, style = y5\<rparr>;
              l10 = \<lparr>lineTime = 10, text' = x10, style = y10\<rparr>;
              l15 = \<lparr>lineTime = 15, text' = x15, style = y15\<rparr>
          in getCurrentLine [l5, l10, l15] 7 = Some l5 \<and>
             getCurrentLine [l5, l10, l15] 15 = Some l15 \<and>
             getCurrentLine [l5, l10, l15] 3 = None \<and>
             getCurrentLine [l5, l10, l15] (15001 / 1000) = Some l15)"
    by (simp add: getCurrentLine_def numeral_3_eq_3)
  from first second third fourth show ?thesis by blast
qed

theorem getCurrentLine_last_started_witness:
  "sorted (map lineTime
     [\<lparr>lineTime = 5, text' = js ''a'', style = None\<rparr>,
      \<lparr>lineTime = 10, text' = js ''b'', style = None\<rparr>,
      \<lparr>lineTime = 10, text' = js ''c'', style = None\<rparr>,
      \<lparr>lineTime = 15, text' = js ''d'', style = None\<rparr>]) \<and>
   getCurrentLine
     [\<lparr>lineTime = 5, text' = js ''a'', style = None\<rparr>,
      \<lparr>lineTime = 10, text' = js ''b'', style = None\<rparr>,
      \<lparr>lineTime = 10, text' = js ''c'', style = None\<rparr>,
      \<lparr>lineTime = 15, text' = js ''d'', style = None\<rparr>] 12 =
     Some \<lparr>lineTime = 10, text' = js ''c'', style = None\<rparr>"
proof -
  have h: "sorted (map lineTime
     [\<lparr>lineTime = 5, text' = js ''a'', style = None\<rparr>,
      \<lparr>lineTime = 10, text' = js ''b'', style = None\<rparr>,
      \<lparr>lineTime = 10, text' = js ''c'', style = None\<rparr>,
      \<lparr>lineTime = 15, text' = js ''d'', style = None\<rparr>])"
    by simp
  show ?thesis using h getCurrentLine_last_started [OF h, of 12] by simp
qed

text \<open>
  C2.  For every input, the result of \<open>parseLrc\<close> is sorted ascending by \<open>lineTime\<close>: each
  element is at most its successor, whatever the order of the timestamps in the input.
\<close>

theorem parseLrc_sorted:
  "sorted (map lineTime (parseLrc lrcContent)) \<and>
   (\<forall>i. Suc i < length (parseLrc lrcContent) \<longrightarrow>
      lineTime (parseLrc lrcContent ! i) \<le> lineTime (parseLrc lrcContent ! Suc i))"
proof -
  have s: "sorted (map lineTime (parseLrc lrcContent))"
    by (simp add: parseLrc_def sorted_array_sort)
  have "lineTime (parseLrc lrcContent ! i) \<le> lineTime (parseLrc lrcContent ! Suc i)"
    if "Suc i < length (parseLrc lrcContent)" for i
  proof -
    from s that have "map lineTime (parseLrc lrcContent) ! i \<le> map lineTime (parseLrc lrcContent) ! Suc i"
      by (intro sorted_nth_mono) auto
    with that show ?thesis by simp
  qed
  with s show ?thesis by blast
qed

theorem parseLrc_sorted_witness:
  "parseLrc (js ''[00:20] b'' @ [10] @ js ''[00:15.50] m'' @ [10] @ js ''[00:10] a'') =
     [\<lparr>lineTime = 10, text' = js ''a'', style = None\<rparr>,
      \<lparr>lineTime = 31 / 2, text' = js ''m'', style = None\<rparr>,
      \<lparr>lineTime = 20, text' = js ''b'', style = None\<rparr>] \<and>
   sorted (map lineTime
     (parseLrc (js ''[00:20] b'' @ [10] @ js ''[00:15.50] m'' @ [10] @ js ''[00:10] a''))) \<and>
   lineTime (parseLrc (js ''[00:20] b'' @ [10] @ js ''[00:15.50] m'' @ [10] @ js ''[00:10] a'') ! 0)
     \<le> lineTime (parseLrc (js ''[00:20] b'' @ [10] @ js ''[00:15.50] m'' @ [10] @ js ''[00:10] a'') ! Suc 0)"
proof -
  have e: "parseLrc (js ''[00:20] b'' @ [10] @ js ''[00:15.50] m'' @ [10] @ js ''[00:10] a'') =
     [\<lparr>lineTime = 10, text' = js ''a'', style = None\<rparr>,
      \<lparr>lineTime = 31 / 2, text' = js ''m'', style = None\<rparr>,
      \<lparr>lineTime = 20, text' = js ''b'', style = None\<rparr>]"
    by (simp add: eval_defs)
  show ?thesis
    using parseLrc_sorted [of "js ''[00:20] b'' @ [10] @ js ''[00:15.50] m'' @ [10] @ js ''[00:10] a''"]
    unfolding e by simp
qed

text \<open>
  C3.  For every line of the input that contains a timestamp tag \<open>[MM:SS]\<close>, \<open>[MM:SS.ff]\<close> or
  \<open>[MM:SS.fff]\<close> (the leftmost one, when there are several), the line's entry in the result has
  \<open>lineTime\<close> equal to the minutes times 60 plus the seconds, fraction included, computed as a
  floating-point value: the seconds are the double nearest to the decimal number of the tag,
  and the sum is rounded to a double.  Without a fraction the time is the exact whole number.
  A line tagged \<open>[01:02.500]\<close> yields 62.5; a line tagged \<open>[01:24.478]\<close> yields the double
  84.47800000000001, which is 1486152692660175 / 2 ^ 44.
\<close>

theorem parseLrc_startTime:
  assumes "line \<in> set (split 10 lrcContent)"
    and "\<not> contains_time_tag pre"
    and "is_digit m1" "is_digit m2" "is_digit s1" "is_digit s2" "is_fraction fr"
    and "line = pre @ time_tag [m1, m2] (s1 # s2 # fr) @ post"
  shows "(fr = [] \<longrightarrow>
            (\<exists>l\<in>set (parseLrc lrcContent). parse_line line = Some l \<and>
               lineTime l = (10 * digit_of m1 + digit_of m2) * 60 + (10 * digit_of s1 + digit_of s2))) \<and>
         (\<forall>f1 f2. fr = [46, f1, f2] \<longrightarrow>
            (\<exists>l\<in>set (parseLrc lrcContent). parse_line line = Some l \<and>
               lineTime l = dbl ((10 * digit_of m1 + digit_of m2) * 60 +
                 dbl (10 * digit_of s1 + digit_of s2 + digit_of f1 / 10 + digit_of f2 / 100)))) \<and>
         (\<forall>f1 f2 f3. fr = [46, f1, f2, f3] \<longrightarrow>
            (\<exists>l\<in>set (parseLrc lrcContent). parse_line line = Some l \<and>
               lineTime l = dbl ((10 * digit_of m1 + digit_of m2) * 60 +
                 dbl (10 * digit_of s1 + digit_of s2 + digit_of f1 / 10 + digit_of f2 / 100 +
                      digit_of f3 / 1000)))) \<and>
         map lineTime (parseLrc (js ''[01:02.500]'')) = [125 / 2] \<and>
         map lineTime (parseLrc (js ''[01:24.478]'')) = [1486152692660175 / 2 ^ 44]"
proof -
  have g: "is_time_groups [m1, m2] (s1 # s2 # fr)"
    using assms(3-7) by (auto simp: is_time_groups_iff)
  from tagged_line_emitted [OF assms(1,2) g assms(8)]
  obtain l where l: "l \<in> set (parseLrc lrcContent)" "parse_line line = Some l"
    "lineTime l = tag_seconds [m1, m2] (s1 # s2 # fr)"
    by (auto split: option.splits)
  have a: "fr = [] \<longrightarrow>
            (\<exists>l\<in>set (parseLrc lrcContent). parse_line line = Some l \<and>
               lineTime l = (10 * digit_of m1 + digit_of m2) * 60 + (10 * digit_of s1 + digit_of s2))"
    using l tag_seconds_whole [OF assms(3-6)] by auto
  have b: "\<forall>f1 f2. fr = [46, f1, f2] \<longrightarrow>
            (\<exists>l\<in>set (parseLrc lrcContent). parse_line line = Some l \<and>
               lineTime l = dbl ((10 * digit_of m1 + digit_of m2) * 60 +
                 dbl (10 * digit_of s1 + digit_of s2 + digit_of f1 / 10 + digit_of f2 / 100)))"
    using l by (auto simp: tag_seconds_fraction)
  have c: "\<forall>f1 f2 f3. fr = [46, f1, f2, f3] \<longrightarrow>
            (\<exists>l\<in>set (parseLrc lrcContent). parse_line line = Some l \<and>
               lineTime l = dbl ((10 * digit_of m1 + digit_of m2) * 60 +
                 dbl (10 * digit_of s1 + digit_of s2 + digit_of f1 / 10 + digit_of f2 / 100 +
                      digit_of f3 / 1000)))"
    using l by (auto simp: tag_seconds_fraction)
  have d: "map lineTime (parseLrc (js ''[01:02.500]'')) = [125 / 2]"
    "map lineTime (parseLrc (js ''[01:24.478]'')) = [1486152692660175 / 2 ^ 44]"
    by (simp_all add: eval_defs)
  from a b c d show ?thesis by (intro conjI)
qed

theorem parseLrc_startTime_witness:
  "js ''intro [01:24.478] hi'' \<in> set (split 10 (js ''[ti:song]'' @ [10] @ js ''intro [01:24.478] hi'')) \<and>
   \<not> contains_time_tag (js ''intro '') \<and>
   is_fraction (js ''.478'') \<and>
   js ''intro [01:24.478] hi'' = js ''intro '' @ time_tag (js ''01'') (js ''24.478'') @ js '' hi'' \<and>
   dbl (12239 / 500) = 3444972239961719 / 2 ^ 47 \<and>
   dbl (60 + 3444972239961719 / 2 ^ 47) = 1486152692660175 / 2 ^ 44 \<and>
   (\<exists>l\<in>set (parseLrc (js ''[ti:song]'' @ [10] @ js ''intro [01:24.478] hi'')).
      parse_line (js ''intro [01:24.478] hi'') = Some l \<and>
      lineTime l = 1486152692660175 / 2 ^ 44)"
proof -
  have h1: "js ''intro [01:24.478] hi'' \<in> set (split 10 (js ''[ti:song]'' @ [10] @ js ''intro [01:24.478] hi''))"
    by (simp add: js_def)
  have h2: "\<not> contains_time_tag (js ''intro '')"
    by (simp add: no_time_tag_iff js_def)
  have d: "is_digit 48" "is_digit 49" "is_digit 50" "is_digit 52"
    by (simp_all add: is_digit_def)
  have h3: "is_fraction [46, 52, 55, 56]"
    by (simp add: is_fraction_def is_digit_def)
  have h4: "js ''intro [01:24.478] hi'' = js ''intro '' @ time_tag [48, 49] (50 # 52 # [46, 52, 55, 56]) @ js '' hi''"
    by (simp add: js_def time_tag_def)
  have r: "dbl (12239 / 500) = 3444972239961719 / 2 ^ 47"
    "dbl (60 + 3444972239961719 / 2 ^ 47) = 1486152692660175 / 2 ^ 44"
    by (simp_all add: round_defs)
  from parseLrc_startTime [OF h1 h2 d(1) d(2) d(3) d(4) h3 h4]
  have "\<exists>l\<in>set (parseLrc (js ''[ti:song]'' @ [10] @ js ''intro [01:24.478] hi'')).
      parse_line (js ''intro [01:24.478] hi'') = Some l \<and>
      lineTime l = dbl ((10 * digit_of 48 + digit_of 49) * 60 +
                 dbl (10 * digit_of 50 + digit_of 52 + digit_of 52 / 10 + digit_of 55 / 100 +
                      digit_of 56 / 1000))"
    by blast
  moreover have "(10 * digit_of 48 + digit_of 49) * 60 = 60"
    "10 * digit_of 50 + digit_of 52 + digit_of 52 / 10 + digit_of 55 / 100 + digit_of 56 / 1000 =
       12239 / 500"
    by (simp_all add: digit_of_def)
  ultimately have c: "\<exists>l\<in>set (parseLrc (js ''[ti:song]'' @ [10] @ js ''intro [01:24.478] hi'')).
      parse_line (js ''intro [01:24.478] hi'') = Some l \<and> lineTime l = 1486152692660175 / 2 ^ 44"
    by (simp only: r)
  have "js ''01'' = [48, 49]" "js ''24.478'' = 50 # 52 # [46, 52, 55, 56]" "js ''.478'' = [46, 52, 55, 56]"
    by (simp_all add: js_def)
  with h1 h2 h3 h4 r c show ?thesis by simp
qed

text \<open>
  C4, as the code has it.  A retained pair whose key is not \<open>__proto__\<close> stores a number when
  the trimmed value begins with a decimal literal, namely the double that \<open>parseFloat\<close> reads
  from this prefix, whatever follows it; otherwise it stores the trimmed value as a string.
  A value that is a number as a whole begins with a decimal literal, so it is stored as a
  number; a run of digits followed by other text is stored as the number of the digits when
  that number is below \<open>2 ^ 53\<close>, and as a rounded double or an infinity beyond:
  \<open>9007199254740993\<close> gives 9007199254740992 and \<open>1e400\<close> gives \<open>Infinity\<close>.
  \<open>true\<close>, \<open>diag\<close>, \<open>drift\<close>, \<open>scatter\<close> and \<open>gothic\<close> begin with no literal and stay strings.
  \<open>{size:100, font:gothic}\<close> yields the number 100 for \<open>size\<close> and the string \<open>gothic\<close> for
  \<open>font\<close>.
\<close>

theorem style_value_conversion:
  assumes "58 \<notin> set k" "58 \<notin> set v" "trim k \<noteq> []" "trim v \<noteq> []" "trim k \<noteq> proto_key"
  shows "style_pair m (k @ 58 # v) =
           m(trim k \<mapsto> (if has_numeric_prefix (trim v) then Number (parseFloat (trim v))
                         else Str (trim v))) \<and>
         (has_numeric_prefix (trim v) \<longrightarrow> parseFloat (trim v) \<noteq> NaN) \<and>
         (whole_numeric_value (trim v) \<longrightarrow> has_numeric_prefix (trim v)) \<and>
         (\<forall>ds rest. trim v = ds @ rest \<and> ds \<noteq> [] \<and> list_all is_digit ds \<and>
                    digits_value ds < 2 ^ 53 \<and>
                    (rest = [] \<or> (\<not> is_digit (hd rest) \<and> hd rest \<noteq> 46 \<and> hd rest \<noteq> 101 \<and>
                                  hd rest \<noteq> 69)) \<longrightarrow>
            parseFloat (trim v) = Finite (of_nat (digits_value ds))) \<and>
         parseFloat (js ''9007199254740993'') = Finite 9007199254740992 \<and>
         parseFloat (js ''1e400'') = PosInfinity \<and>
         \<not> has_numeric_prefix (js ''true'') \<and> \<not> has_numeric_prefix (js ''diag'') \<and>
         \<not> has_numeric_prefix (js ''drift'') \<and> \<not> has_numeric_prefix (js ''scatter'') \<and>
         \<not> has_numeric_prefix (js ''gothic'') \<and>
         parseLrc (js ''[00:01] la {size:100, font:gothic}'') =
           [\<lparr>lineTime = 1, text' = js ''la'',
             style = Some [js ''size'' \<mapsto> Number (Finite 100), js ''font'' \<mapsto> Str (js ''gothic'')]\<rparr>]"
proof -
  have a: "style_pair m (k @ 58 # v) =
           m(trim k \<mapsto> (if has_numeric_prefix (trim v) then Number (parseFloat (trim v))
                         else Str (trim v)))"
    using assms by (simp add: style_pair_two object_set_def parseFloat_NaN_iff)
  have b: "has_numeric_prefix (trim v) \<longrightarrow> parseFloat (trim v) \<noteq> NaN"
    by (simp add: parseFloat_NaN_iff)
  have c: "whole_numeric_value (trim v) \<longrightarrow> has_numeric_prefix (trim v)"
    by (simp add: whole_numeric_value_prefix)
  have d: "\<forall>ds rest. trim v = ds @ rest \<and> ds \<noteq> [] \<and> list_all is_digit ds \<and>
                    digits_value ds < 2 ^ 53 \<and>
                    (rest = [] \<or> (\<not> is_digit (hd rest) \<and> hd rest \<noteq> 46 \<and> hd rest \<noteq> 101 \<and>
                                  hd rest \<noteq> 69)) \<longrightarrow>
            parseFloat (trim v) = Finite (of_nat (digits_value ds))"
  proof (intro allI impI)
    fix ds rest
    assume h: "trim v = ds @ rest \<and> ds \<noteq> [] \<and> list_all is_digit ds \<and>
                    digits_value ds < 2 ^ 53 \<and>
                    (rest = [] \<or> (\<not> is_digit (hd rest) \<and> hd rest \<noteq> 46 \<and> hd rest \<noteq> 101 \<and>
                                  hd rest \<noteq> 69))"
    then have "parseFloat (ds @ rest) = round_double (of_nat (digits_value ds))"
      by (intro parseFloat_digits) auto
    moreover from h have "round_double (of_nat (digits_value ds)) = Finite (of_nat (digits_value ds))"
      by (intro round_double_nat) simp
    ultimately show "parseFloat (trim v) = Finite (of_nat (digits_value ds))" using h by simp
  qed
  have x: "parseFloat (js ''9007199254740993'') = Finite 9007199254740992"
    "parseFloat (js ''1e400'') = PosInfinity"
    by (simp_all add: eval_defs)
  have e: "\<not> has_numeric_prefix (js ''true'')" "\<not> has_numeric_prefix (js ''diag'')"
    "\<not> has_numeric_prefix (js ''drift'')" "\<not> has_numeric_prefix (js ''scatter'')"
    "\<not> has_numeric_prefix (js ''gothic'')"
    by (simp_all add: has_numeric_prefix_def eval_defs)
  have f: "parseLrc (js ''[00:01] la {size:100, font:gothic}'') =
           [\<lparr>lineTime = 1, text' = js ''la'',
             style = Some [js ''size'' \<mapsto> Number (Finite 100), js ''font'' \<mapsto> Str (js ''gothic'')]\<rparr>]"
    by (simp add: eval_defs)
  show ?thesis using a b c d x e f by (intro conjI)
qed

theorem style_value_conversion_witness:
  "58 \<notin> set (js '' size'') \<and> 58 \<notin> set (js '' 120px '') \<and> trim (js '' size'') \<noteq> [] \<and>
   trim (js '' 120px '') \<noteq> [] \<and> trim (js '' size'') \<noteq> proto_key \<and>
   style_pair Map.empty (js '' size'' @ 58 # js '' 120px '') = [js ''size'' \<mapsto> Number (Finite 120)]"
proof -
  have h: "58 \<notin> set (js '' size'')" "58 \<notin> set (js '' 120px '')" "trim (js '' size'') \<noteq> []"
    "trim (js '' 120px '') \<noteq> []" "trim (js '' size'') \<noteq> proto_key"
    by (simp_all add: eval_defs)
  have t: "trim (js '' size'') = js ''size''" "trim (js '' 120px '') = js ''120px''"
    by (simp_all add: eval_defs)
  have p: "has_numeric_prefix (js ''120px'')" "parseFloat (js ''120px'') = Finite 120"
    by (simp_all add: has_numeric_prefix_def eval_defs)
  from style_value_conversion [OF h, of Map.empty, THEN conjunct1]
  have "style_pair Map.empty (js '' size'' @ 58 # js '' 120px '') = [js ''size'' \<mapsto> Number (Finite 120)]"
    unfolding t using p by simp
  with h show ?thesis by (intro conjI)
qed

text \<open>The claim C4 as it is written fails on \<open>{size:12px}\<close>: \<open>12px\<close> is not a number as a whole,
  and yet the style holds the number 12, not the string.\<close>

theorem style_value_prefix_counterexample:
  "\<not> whole_numeric_value (js ''12px'') \<and>
   parseLrc (js ''[00:01] la {size:12px}'') =
     [\<lparr>lineTime = 1, text' = js ''la'', style = Some [js ''size'' \<mapsto> Number (Finite 12)]\<rparr>] \<and>
   Number (Finite 12) \<noteq> Str (js ''12px'')"
  by (simp add: whole_numeric_value_def literal_rest_def exponent_rest_def eval_defs)

text \<open>
  C5, as the code has it.  The content of an annotation is split at every comma and the
  segments are taken in order.  A segment is split at every colon: the key is the trimmed
  piece before the first colon and the value the trimmed piece between the first and the
  second colon; whatever follows a second colon is dropped.  A segment without a colon, or
  with an empty key or value, changes nothing.  A retained pair (with a key other than
  \<open>__proto__\<close>) sets its key, replacing the value an earlier segment gave it.
\<close>

theorem style_pair_split:
  "(44 \<notin> set seg \<longrightarrow>
      parse_style seg = style_pair Map.empty seg \<and>
      parse_style (c @ 44 # seg) = style_pair (parse_style c) seg) \<and>
   (58 \<notin> set seg \<longrightarrow> style_pair m seg = m) \<and>
   (58 \<notin> set k \<and> 58 \<notin> set v \<longrightarrow>
      style_pair m (k @ 58 # v @ 58 # w) = style_pair m (k @ 58 # v) \<and>
      (trim k = [] \<or> trim v = [] \<longrightarrow> style_pair m (k @ 58 # v) = m) \<and>
      (trim k \<noteq> [] \<and> trim v \<noteq> [] \<and> trim k \<noteq> proto_key \<longrightarrow>
         style_pair m (k @ 58 # v) =
           m(trim k \<mapsto> (if parseFloat (trim v) = NaN then Str (trim v)
                         else Number (parseFloat (trim v)))))) \<and>
   parse_style (js ''a:1, b:x, a:2'') = [js ''a'' \<mapsto> Number (Finite 2), js ''b'' \<mapsto> Str (js ''x'')] \<and>
   parseLrc (js ''[00:01] la {url:a:b}'') =
     [\<lparr>lineTime = 1, text' = js ''la'', style = Some [js ''url'' \<mapsto> Str (js ''a'')]\<rparr>]"
proof -
  have a: "44 \<notin> set seg \<longrightarrow>
      parse_style seg = style_pair Map.empty seg \<and>
      parse_style (c @ 44 # seg) = style_pair (parse_style c) seg"
    by (simp add: parse_style_single parse_style_snoc)
  have b: "58 \<notin> set seg \<longrightarrow> style_pair m seg = m"
    by (simp add: style_pair_no_colon)
  have c: "58 \<notin> set k \<and> 58 \<notin> set v \<longrightarrow>
      style_pair m (k @ 58 # v @ 58 # w) = style_pair m (k @ 58 # v) \<and>
      (trim k = [] \<or> trim v = [] \<longrightarrow> style_pair m (k @ 58 # v) = m) \<and>
      (trim k \<noteq> [] \<and> trim v \<noteq> [] \<and> trim k \<noteq> proto_key \<longrightarrow>
         style_pair m (k @ 58 # v) =
           m(trim k \<mapsto> (if parseFloat (trim v) = NaN then Str (trim v)
                         else Number (parseFloat (trim v)))))"
    by (auto simp: style_pair_more style_pair_two object_set_def)
  have d: "parse_style (js ''a:1, b:x, a:2'') =
      [js ''a'' \<mapsto> Number (Finite 2), js ''b'' \<mapsto> Str (js ''x'')]"
    by (simp add: eval_defs fun_upd_twist)
  have e: "parseLrc (js ''[00:01] la {url:a:b}'') =
     [\<lparr>lineTime = 1, text' = js ''la'', style = Some [js ''url'' \<mapsto> Str (js ''a'')]\<rparr>]"
    by (simp add: eval_defs)
  show ?thesis using a b c d e by (intro conjI)
qed

theorem style_pair_split_witness:
  "58 \<notin> set (js ''url'') \<and> 58 \<notin> set (js ''a'') \<and> trim (js ''url'') \<noteq> [] \<and> trim (js ''a'') \<noteq> [] \<and>
   trim (js ''url'') \<noteq> proto_key \<and>
   style_pair Map.empty (js ''url'' @ 58 # js ''a'' @ 58 # js ''b'') =
     style_pair Map.empty (js ''url'' @ 58 # js ''a'') \<and>
   style_pair Map.empty (js ''url'' @ 58 # js ''a'') = [js ''url'' \<mapsto> Str (js ''a'')]"
proof -
  have h: "58 \<notin> set (js ''url'')" "58 \<notin> set (js ''a'')" "trim (js ''url'') \<noteq> []"
    "trim (js ''a'') \<noteq> []" "trim (js ''url'') \<noteq> proto_key"
    by (simp_all add: eval_defs)
  have t: "trim (js ''url'') = js ''url''" "trim (js ''a'') = js ''a''"
    "parseFloat (js ''a'') = NaN"
    by (simp_all add: eval_defs)
  note s = style_pair_split [where k = "js ''url''" and v = "js ''a''" and m = Map.empty and w = "js ''b''",
      THEN conjunct2, THEN conjunct2, THEN conjunct1]
  from s h(1,2) have r: "style_pair Map.empty (js ''url'' @ 58 # js ''a'' @ 58 # js ''b'') =
       style_pair Map.empty (js ''url'' @ 58 # js ''a'')"
    "trim (js ''url'') \<noteq> [] \<and> trim (js ''a'') \<noteq> [] \<and> trim (js ''url'') \<noteq> proto_key \<longrightarrow>
         style_pair Map.empty (js ''url'' @ 58 # js ''a'') =
           Map.empty(trim (js ''url'') \<mapsto> (if parseFloat (trim (js ''a'')) = NaN then Str (trim (js ''a''))
                         else Number (parseFloat (trim (js ''a'')))))"
    by blast+
  from r(2) h(3,4,5) have "style_pair Map.empty (js ''url'' @ 58 # js ''a'') = [js ''url'' \<mapsto> Str (js ''a'')]"
    unfolding t by simp
  with h r(1) show ?thesis by (intro conjI)
qed

text \<open>The claim C5 as it is written fails on \<open>{url:a:b}\<close>: everything after the first colon is
  \<open>a:b\<close>, and the style holds \<open>a\<close>.\<close>

theorem style_pair_first_colon_counterexample:
  "split_first 58 (js ''url:a:b'') = (js ''url'', js ''a:b'') \<and>
   parseLrc (js ''[00:01] la {url:a:b}'') =
     [\<lparr>lineTime = 1, text' = js ''la'', style = Some [js ''url'' \<mapsto> Str (js ''a'')]\<rparr>] \<and>
   Str (js ''a'') \<noteq> Str (js ''a:b'')"
  by (simp add: split_first_def eval_defs)

text \<open>
  C6.  \<open>parseLrc\<close> is a total function: no operation of it can throw, and it returns a list for
  every input.  The empty input gives the empty list.  The result has one entry for each line
  that contains a well-formed tag and none for any other line: a line without such a tag
  (the tag is absent or malformed) can be taken out of the input without changing the
  result.  A style segment without a colon, such as \<open>color\<close>, leaves the style as it is, and
  taking it out of the annotation does not change the parsed style.
\<close>

theorem parseLrc_never_fails:
  "parseLrc [] = [] \<and>
   length (parseLrc lrcContent) = length (filter contains_time_tag (split 10 lrcContent)) \<and>
   (\<not> contains_time_tag line \<and> 10 \<notin> set line \<longrightarrow>
      parseLrc line = [] \<and> parseLrc (a @ 10 # line @ 10 # b) = parseLrc (a @ 10 # b)) \<and>
   (58 \<notin> set seg \<longrightarrow> style_pair m seg = m) \<and>
   (58 \<notin> set seg \<and> 44 \<notin> set seg \<longrightarrow>
      parse_style (c1 @ 44 # seg @ 44 # c2) = parse_style (c1 @ 44 # c2)) \<and>
   parseLrc (js ''[1:02] a'') = [] \<and> parseLrc (js ''[01:2] a'') = [] \<and>
   parseLrc (js ''[01:02.5] a'') = [] \<and> parseLrc (js ''[01:02.5000] a'') = [] \<and>
   parseLrc (js ''[01-02] a'') = [] \<and> parseLrc (js ''[01:02 a'') = [] \<and>
   parseLrc (js ''[ar:artist]'') = [] \<and> parseLrc (js ''no tag here'') = [] \<and>
   parseLrc (js ''[00:01] la {color}'') =
     [\<lparr>lineTime = 1, text' = js ''la'', style = Some Map.empty\<rparr>] \<and>
   parseLrc (js ''[00:01] la {color, size:3}'') =
     [\<lparr>lineTime = 1, text' = js ''la'', style = Some [js ''size'' \<mapsto> Number (Finite 3)]\<rparr>]"
proof -
  have a: "parseLrc [] = []"
    by (simp add: parseLrc_def parse_line_def array_sort_def)
  have "contains_time_tag = (\<lambda>line. timeRegex_exec line \<noteq> None)"
    by (rule ext) (rule contains_time_tag_iff)
  then have b: "length (parseLrc lrcContent) = length (filter contains_time_tag (split 10 lrcContent))"
    by (simp add: length_parseLrc)
  have c: "\<not> contains_time_tag line \<and> 10 \<notin> set line \<longrightarrow>
      parseLrc line = [] \<and> parseLrc (a @ 10 # line @ 10 # b) = parseLrc (a @ 10 # b)"
  proof (rule impI)
    assume that: "\<not> contains_time_tag line \<and> 10 \<notin> set line"
    from that have "timeRegex_exec line = None"
      by (simp only: no_time_tag_iff)
    then have "parse_line line = None"
      by (simp only: parse_line_None_iff)
    with that show "parseLrc line = [] \<and>
        parseLrc (a @ 10 # line @ 10 # b) = parseLrc (a @ 10 # b)"
      by (simp add: parseLrc_single parseLrc_drop_line)
  qed
  have d: "58 \<notin> set seg \<longrightarrow> style_pair m seg = m"
    by (simp add: style_pair_no_colon)
  have e: "58 \<notin> set seg \<and> 44 \<notin> set seg \<longrightarrow>
      parse_style (c1 @ 44 # seg @ 44 # c2) = parse_style (c1 @ 44 # c2)"
  proof (rule impI)
    assume that: "58 \<notin> set seg \<and> 44 \<notin> set seg"
    have "split 44 (c1 @ 44 # seg @ 44 # c2) = split 44 c1 @ seg # split 44 c2"
      using that by (simp add: split_append split_no_sep)
    moreover have "split 44 (c1 @ 44 # c2) = split 44 c1 @ split 44 c2"
      by (simp add: split_append)
    ultimately show "parse_style (c1 @ 44 # seg @ 44 # c2) = parse_style (c1 @ 44 # c2)"
      using that by (simp add: parse_style_def style_pair_no_colon)
  qed
  have f: "parseLrc (js ''[1:02] a'') = []" "parseLrc (js ''[01:2] a'') = []"
    "parseLrc (js ''[01:02.5] a'') = []" "parseLrc (js ''[01:02.5000] a'') = []"
    "parseLrc (js ''[01-02] a'') = []" "parseLrc (js ''[01:02 a'') = []"
    "parseLrc (js ''[ar:artist]'') = []" "parseLrc (js ''no tag here'') = []"
    by (simp_all add: eval_defs)
  have g: "parseLrc (js ''[00:01] la {color}'') =
     [\<lparr>lineTime = 1, text' = js ''la'', style = Some Map.empty\<rparr>]"
    "parseLrc (js ''[00:01] la {color, size:3}'') =
     [\<lparr>lineTime = 1, text' = js ''la'', style = Some [js ''size'' \<mapsto> Number (Finite 3)]\<rparr>]"
    by (simp_all add: eval_defs)
  show ?thesis
    using a b c d e f g by (intro conjI)
qed

theorem parseLrc_never_fails_witness:
  "\<not> contains_time_tag (js ''[ar:artist]'') \<and> 10 \<notin> set (js ''[ar:artist]'') \<and>
   parseLrc (js ''[00:05] a'' @ 10 # js ''[ar:artist]'' @ 10 # js ''[00:07] b'') =
     parseLrc (js ''[00:05] a'' @ 10 # js ''[00:07] b'') \<and>
   parseLrc (js ''[00:05] a'' @ 10 # js ''[00:07] b'') =
     [\<lparr>lineTime = 5, text' = js ''a'', style = None\<rparr>,
      \<lparr>lineTime = 7, text' = js ''b'', style = None\<rparr>] \<and>
   58 \<notin> set (js ''color'') \<and> 44 \<notin> set (js ''color'') \<and>
   parse_style (js ''size:3'' @ 44 # js ''color'' @ 44 # js ''font:gothic'') =
     parse_style (js ''size:3'' @ 44 # js ''font:gothic'')"
proof -
  have "timeRegex_exec (js ''[ar:artist]'') = None" by (simp add: eval_defs)
  then have h1: "\<not> contains_time_tag (js ''[ar:artist]'')"
    by (simp only: no_time_tag_iff)
  have h2: "10 \<notin> set (js ''[ar:artist]'')" by (simp add: js_def)
  have h3: "58 \<notin> set (js ''color'')" "44 \<notin> set (js ''color'')" by (simp_all add: js_def)
  note t = parseLrc_never_fails [of _ "js ''[ar:artist]''" "js ''[00:05] a''" "js ''[00:07] b''"
      "js ''color''" _ "js ''size:3''" "js ''font:gothic''"]
  from t [THEN conjunct2, THEN conjunct2, THEN conjunct1] h1 h2 have r1: "parseLrc (js ''[00:05] a'' @ 10 # js ''[ar:artist]'' @ 10 # js ''[00:07] b'') =
     parseLrc (js ''[00:05] a'' @ 10 # js ''[00:07] b'')"
    by blast
  from t [THEN conjunct2, THEN conjunct2, THEN conjunct2, THEN conjunct2, THEN conjunct1] h3
  have r2: "parse_style (js ''size:3'' @ 44 # js ''color'' @ 44 # js ''font:gothic'') =
     parse_style (js ''size:3'' @ 44 # js ''font:gothic'')"
    by blast
  have r3: "parseLrc (js ''[00:05] a'' @ 10 # js ''[00:07] b'') =
     [\<lparr>lineTime = 5, text' = js ''a'', style = None\<rparr>,
      \<lparr>lineTime = 7, text' = js ''b'', style = None\<rparr>]"
    by (simp add: eval_defs)
  from h1 h2 h3 r1 r2 r3 show ?thesis by (intro conjI)
qed

text \<open>
  C7.  A line with a valid tag whose text is empty once the tag, a style annotation and the
  surrounding white space are removed still yields an entry: with the empty text, the time of
  the tag as the program computes it in doubles (\<open>tag_seconds\<close>), no style when the line has
  no annotation, and the parsed style when it has one.  The input \<open>[00:10.000]\<close> yields one
  entry with empty text, \<open>lineTime\<close> 10 and no style; the marker \<open>[02:32.170]\<close> of the
  repository's lyrics yields the double 152.17000000000002, which is 2677002950378783 / 2 ^ 44.
\<close>

theorem parseLrc_empty_text_marker:
  assumes "line \<in> set (split 10 lrcContent)"
    and "\<not> contains_time_tag pre" "is_time_groups g1 g2"
    and "line = pre @ time_tag g1 g2 @ post"
  shows "(trim (pre @ post) = [] \<longrightarrow>
            (\<exists>l\<in>set (parseLrc lrcContent). parse_line line = Some l \<and>
               l = \<lparr>lineTime = tag_seconds g1 g2, text' = [], style = None\<rparr>)) \<and>
         (\<forall>a c b. trim (pre @ post) = a @ 123 # c @ 125 # b \<and> 123 \<notin> set a \<and> 125 \<notin> set c \<and>
                  (\<forall>x\<in>set c. \<not> is_line_terminator x) \<and> trim (a @ b) = [] \<longrightarrow>
            (\<exists>l\<in>set (parseLrc lrcContent). parse_line line = Some l \<and>
               l = \<lparr>lineTime = tag_seconds g1 g2, text' = [], style = Some (parse_style c)\<rparr>)) \<and>
         parseLrc (js ''[00:10.000]'') = [\<lparr>lineTime = 10, text' = [], style = None\<rparr>] \<and>
         parseLrc (js ''[02:32.170]'') =
           [\<lparr>lineTime = 2677002950378783 / 2 ^ 44, text' = [], style = None\<rparr>] \<and>
         tag_seconds (js ''02'') (js ''32.170'') = 2677002950378783 / 2 ^ 44"
proof -
  note e = tagged_line_emitted [OF assms]
  have a: "trim (pre @ post) = [] \<longrightarrow>
            (\<exists>l\<in>set (parseLrc lrcContent). parse_line line = Some l \<and>
               l = \<lparr>lineTime = tag_seconds g1 g2, text' = [], style = None\<rparr>)"
    using e by auto
  have b: "\<exists>l\<in>set (parseLrc lrcContent). parse_line line = Some l \<and>
               l = \<lparr>lineTime = tag_seconds g1 g2, text' = [], style = Some (parse_style c)\<rparr>"
    if "trim (pre @ post) = a @ 123 # c @ 125 # b" "123 \<notin> set a" "125 \<notin> set c"
      "\<forall>x\<in>set c. \<not> is_line_terminator x" "trim (a @ b) = []" for a c b
  proof -
    from that(2-4) have "styleRegex_exec (a @ 123 # c @ 125 # b) = Some (a, c, b)"
      by (rule styleRegex_exec_first)
    with e that(1,5) show ?thesis by simp
  qed
  have c: "parseLrc (js ''[00:10.000]'') = [\<lparr>lineTime = 10, text' = [], style = None\<rparr>]"
    "parseLrc (js ''[02:32.170]'') =
       [\<lparr>lineTime = 2677002950378783 / 2 ^ 44, text' = [], style = None\<rparr>]"
    by (simp_all add: eval_defs)
  have d: "tag_seconds (js ''02'') (js ''32.170'') = 2677002950378783 / 2 ^ 44"
    by (simp add: js_def tag_seconds_def seconds_value_def digits_value_def round_defs)
  from b have b': "\<forall>a c b. trim (pre @ post) = a @ 123 # c @ 125 # b \<and> 123 \<notin> set a \<and> 125 \<notin> set c \<and>
                  (\<forall>x\<in>set c. \<not> is_line_terminator x) \<and> trim (a @ b) = [] \<longrightarrow>
            (\<exists>l\<in>set (parseLrc lrcContent). parse_line line = Some l \<and>
               l = \<lparr>lineTime = tag_seconds g1 g2, text' = [], style = Some (parse_style c)\<rparr>)"
    by blast
  from a b' c d show ?thesis by (intro conjI)
qed

theorem parseLrc_empty_text_marker_witness:
  "js ''[02:32.170] {size:250}'' \<in> set (split 10 (js ''[02:32.170] {size:250}'')) \<and>
   \<not> contains_time_tag [] \<and> is_time_groups (js ''02'') (js ''32.170'') \<and>
   js ''[02:32.170] {size:250}'' = [] @ time_tag (js ''02'') (js ''32.170'') @ js '' {size:250}'' \<and>
   trim ([] @ js '' {size:250}'') = [] @ 123 # js ''size:250'' @ 125 # [] \<and>
   (\<exists>l\<in>set (parseLrc (js ''[02:32.170] {size:250}'')).
      parse_line (js ''[02:32.170] {size:250}'') = Some l \<and>
      l = \<lparr>lineTime = 2677002950378783 / 2 ^ 44, text' = [],
           style = Some [js ''size'' \<mapsto> Number (Finite 250)]\<rparr>)"
proof -
  have h1: "js ''[02:32.170] {size:250}'' \<in> set (split 10 (js ''[02:32.170] {size:250}''))"
    by (simp add: js_def)
  have h2: "\<not> contains_time_tag []" by (simp add: no_time_tag_iff)
  have h3: "is_time_groups (js ''02'') (js ''32.170'')"
    by (simp add: js_def is_time_groups_def is_fraction_def is_digit_def)
  have h4: "js ''[02:32.170] {size:250}'' = [] @ time_tag (js ''02'') (js ''32.170'') @ js '' {size:250}''"
    by (simp add: js_def time_tag_def)
  have t: "trim ([] @ js '' {size:250}'') = [] @ 123 # js ''size:250'' @ 125 # []"
    by (simp add: eval_defs)
  have s: "123 \<notin> set []" "125 \<notin> set (js ''size:250'')"
    "\<forall>x\<in>set (js ''size:250''). \<not> is_line_terminator x" "trim ([] @ []) = []"
    by (simp_all add: js_def is_line_terminator_def trim_def)
  have v: "tag_seconds (js ''02'') (js ''32.170'') = 2677002950378783 / 2 ^ 44"
    by (simp add: js_def tag_seconds_def seconds_value_def digits_value_def round_defs)
  have p: "parse_style (js ''size:250'') = [js ''size'' \<mapsto> Number (Finite 250)]"
    by (simp add: eval_defs)
  note m = parseLrc_empty_text_marker [OF h1 h2 h3 h4, THEN conjunct2, THEN conjunct1, rule_format,
      of "[]" "js ''size:250''" "[]"]
  from m t s
  have "\<exists>l\<in>set (parseLrc (js ''[02:32.170] {size:250}'')).
      parse_line (js ''[02:32.170] {size:250}'') = Some l \<and>
      l = \<lparr>lineTime = tag_seconds (js ''02'') (js ''32.170''), text' = [],
           style = Some (parse_style (js ''size:250''))\<rparr>"
    by simp
  then have "\<exists>l\<in>set (parseLrc (js ''[02:32.170] {size:250}'')).
      parse_line (js ''[02:32.170] {size:250}'') = Some l \<and>
      l = \<lparr>lineTime = 2677002950378783 / 2 ^ 44, text' = [],
           style = Some [js ''size'' \<mapsto> Number (Finite 250)]\<rparr>"
    by (simp only: v p)
  with h1 h2 h3 h4 t show ?thesis by (intro conjI)
qed

text \<open>
  C8.  The \<open>style\<close> of an entry is absent exactly when the text of the line around the tag has no
  annotation.  With an empty annotation \<open>{}\<close>, or one whose segments are all malformed, the
  \<open>style\<close> is present and is the empty mapping.
\<close>

theorem parseLrc_style_present:
  assumes "line \<in> set (split 10 lrcContent)"
    and "\<not> contains_time_tag pre" "is_time_groups g1 g2"
    and "line = pre @ time_tag g1 g2 @ post"
  shows "(\<exists>l\<in>set (parseLrc lrcContent). parse_line line = Some l \<and>
            (style l = None \<longleftrightarrow> \<not> has_annotation (trim (pre @ post))) \<and>
            (\<forall>a b. trim (pre @ post) = a @ [123, 125] @ b \<and> 123 \<notin> set a \<longrightarrow>
               style l = Some Map.empty) \<and>
            (\<forall>a c b. trim (pre @ post) = a @ 123 # c @ 125 # b \<and> 123 \<notin> set a \<and> 125 \<notin> set c \<and>
                     (\<forall>x\<in>set c. \<not> is_line_terminator x) \<and>
                     (\<forall>seg\<in>set (split 44 c). malformed_pair seg) \<longrightarrow>
               style l = Some Map.empty)) \<and>
         map style (parseLrc (js ''[00:01] la {}'')) = [Some Map.empty] \<and>
         map style (parseLrc (js ''[00:01] la {color, :3, size:}'')) = [Some Map.empty] \<and>
         map style (parseLrc (js ''[00:01] la'')) = [None]"
proof -
  from tagged_line_emitted [OF assms] obtain l where l: "l \<in> set (parseLrc lrcContent)"
    "parse_line line = Some l"
    "l = (case styleRegex_exec (trim (pre @ post)) of
             None \<Rightarrow> \<lparr>lineTime = tag_seconds g1 g2, text' = trim (pre @ post), style = None\<rparr>
           | Some (sp, c, sr) \<Rightarrow>
               \<lparr>lineTime = tag_seconds g1 g2, text' = trim (sp @ sr), style = Some (parse_style c)\<rparr>)"
    by blast
  have a: "style l = None \<longleftrightarrow> \<not> has_annotation (trim (pre @ post))"
    using l(3) styleRegex_exec_None_iff [of "trim (pre @ post)"]
    by (auto split: option.splits)
  have c: "style l = Some Map.empty"
    if "trim (pre @ post) = a @ 123 # c @ 125 # b" "123 \<notin> set a" "125 \<notin> set c"
      "\<forall>x\<in>set c. \<not> is_line_terminator x" "\<forall>seg\<in>set (split 44 c). malformed_pair seg" for a c b
  proof -
    from that(2-4) have "styleRegex_exec (a @ 123 # c @ 125 # b) = Some (a, c, b)"
      by (rule styleRegex_exec_first)
    moreover from that(5) have "parse_style c = Map.empty"
      by (simp add: parse_style_def foldl_style_pair_malformed)
    ultimately show ?thesis using l(3) that(1) by simp
  qed
  have b: "\<forall>a b. trim (pre @ post) = a @ [123, 125] @ b \<and> 123 \<notin> set a \<longrightarrow>
               style l = Some Map.empty"
  proof (intro allI impI)
    fix a b
    assume "trim (pre @ post) = a @ [123, 125] @ b \<and> 123 \<notin> set a"
    then show "style l = Some Map.empty"
      using c [of a "[]" b] by (simp add: malformed_pair_def)
  qed
  have c': "\<forall>a c b. trim (pre @ post) = a @ 123 # c @ 125 # b \<and> 123 \<notin> set a \<and> 125 \<notin> set c \<and>
                     (\<forall>x\<in>set c. \<not> is_line_terminator x) \<and>
                     (\<forall>seg\<in>set (split 44 c). malformed_pair seg) \<longrightarrow>
               style l = Some Map.empty"
  proof (intro allI impI)
    fix a c b
    assume "trim (pre @ post) = a @ 123 # c @ 125 # b \<and> 123 \<notin> set a \<and> 125 \<notin> set c \<and>
                     (\<forall>x\<in>set c. \<not> is_line_terminator x) \<and>
                     (\<forall>seg\<in>set (split 44 c). malformed_pair seg)"
    then show "style l = Some Map.empty"
      using c [of a c b] by simp
  qed
  have d: "map style (parseLrc (js ''[00:01] la {}'')) = [Some Map.empty]"
    "map style (parseLrc (js ''[00:01] la {color, :3, size:}'')) = [Some Map.empty]"
    "map style (parseLrc (js ''[00:01] la'')) = [None]"
    by (simp_all add: eval_defs)
  show ?thesis
  proof (intro conjI)
    show "\<exists>l\<in>set (parseLrc lrcContent). parse_line line = Some l \<and>
            (style l = None \<longleftrightarrow> \<not> has_annotation (trim (pre @ post))) \<and>
            (\<forall>a b. trim (pre @ post) = a @ [123, 125] @ b \<and> 123 \<notin> set a \<longrightarrow>
               style l = Some Map.empty) \<and>
            (\<forall>a c b. trim (pre @ post) = a @ 123 # c @ 125 # b \<and> 123 \<notin> set a \<and> 125 \<notin> set c \<and>
                     (\<forall>x\<in>set c. \<not> is_line_terminator x) \<and>
                     (\<forall>seg\<in>set (split 44 c). malformed_pair seg) \<longrightarrow>
               style l = Some Map.empty)"
    proof (rule bexI [OF _ l(1)])
      show "parse_line line = Some l \<and>
            (style l = None \<longleftrightarrow> \<not> has_annotation (trim (pre @ post))) \<and>
            (\<forall>a b. trim (pre @ post) = a @ [123, 125] @ b \<and> 123 \<notin> set a \<longrightarrow>
               style l = Some Map.empty) \<and>
            (\<forall>a c b. trim (pre @ post) = a @ 123 # c @ 125 # b \<and> 123 \<notin> set a \<and> 125 \<notin> set c \<and>
                     (\<forall>x\<in>set c. \<not> is_line_terminator x) \<and>
                     (\<forall>seg\<in>set (split 44 c). malformed_pair seg) \<longrightarrow>
               style l = Some Map.empty)"
        using l(2) a b c' by (intro conjI)
    qed
  qed (rule d)+
qed

theorem parseLrc_style_present_witness:
  "js ''[00:01] la {}'' \<in> set (split 10 (js ''[00:01] la {}'')) \<and>
   \<not> contains_time_tag [] \<and> is_time_groups (js ''00'') (js ''01'') \<and>
   js ''[00:01] la {}'' = [] @ time_tag (js ''00'') (js ''01'') @ js '' la {}'' \<and>
   trim ([] @ js '' la {}'') = js ''la '' @ [123, 125] @ [] \<and>
   (\<exists>l\<in>set (parseLrc (js ''[00:01] la {}'')).
      parse_line (js ''[00:01] la {}'') = Some l \<and> style l = Some Map.empty \<and>
      has_annotation (trim ([] @ js '' la {}'')))"
proof -
  have h1: "js ''[00:01] la {}'' \<in> set (split 10 (js ''[00:01] la {}''))"
    by (simp add: js_def)
  have h2: "\<not> contains_time_tag []" by (simp add: no_time_tag_iff)
  have h3: "is_time_groups (js ''00'') (js ''01'')"
    by (simp add: js_def is_time_groups_def is_fraction_def is_digit_def)
  have h4: "js ''[00:01] la {}'' = [] @ time_tag (js ''00'') (js ''01'') @ js '' la {}''"
    by (simp add: js_def time_tag_def)
  have t: "trim ([] @ js '' la {}'') = js ''la '' @ [123, 125] @ []"
    by (simp add: eval_defs)
  have s: "123 \<notin> set (js ''la '')"
    by (simp add: js_def)
  from parseLrc_style_present [OF h1 h2 h3 h4, THEN conjunct1]
  obtain l where l: "l \<in> set (parseLrc (js ''[00:01] la {}''))"
    "parse_line (js ''[00:01] la {}'') = Some l"
    "style l = None \<longleftrightarrow> \<not> has_annotation (trim ([] @ js '' la {}''))"
    "\<forall>a b. trim ([] @ js '' la {}'') = a @ [123, 125] @ b \<and> 123 \<notin> set a \<longrightarrow>
               style l = Some Map.empty"
    by (elim bexE conjE) (rule that)
  from l(4) [rule_format, of "js ''la ''" "[]"] t s have e: "style l = Some Map.empty" by simp
  with l(3) have a: "has_annotation (trim ([] @ js '' la {}''))" by simp
  have "\<exists>l\<in>set (parseLrc (js ''[00:01] la {}'')).
      parse_line (js ''[00:01] la {}'') = Some l \<and> style l = Some Map.empty \<and>
      has_annotation (trim ([] @ js '' la {}''))"
    using l(2) e a by (intro bexI [OF _ l(1)] conjI)
  with h1 h2 h3 h4 t show ?thesis by (intro conjI)
qed

text \<open>
  C9.  The seconds of a tag are not checked against 60: any two digits are accepted, and
  \<open>[00:99]\<close> yields the time 99, which is later than the 60 of \<open>[01:00]\<close>.  The sort orders
  the entries by these numbers, not by the text of the tags.
\<close>

theorem parseLrc_seconds_unchecked:
  "(is_digit m1 \<and> is_digit m2 \<and> is_digit s1 \<and> is_digit s2 \<longrightarrow>
      parseLrc [91, m1, m2, 58, s1, s2, 93] =
        [\<lparr>lineTime = (10 * digit_of m1 + digit_of m2) * 60 + (10 * digit_of s1 + digit_of s2),
          text' = [], style = None\<rparr>]) \<and>
   (\<forall>n<100. parseLrc [91, 48, 48, 58, 48 + n div 10, 48 + n mod 10, 93] =
        [\<lparr>lineTime = of_nat n, text' = [], style = None\<rparr>]) \<and>
   parseLrc (js ''[00:99]'') = [\<lparr>lineTime = 99, text' = [], style = None\<rparr>] \<and>
   parseLrc (js ''[01:00]'') = [\<lparr>lineTime = 60, text' = [], style = None\<rparr>] \<and>
   parseLrc (js ''[00:99] late'' @ [10] @ js ''[01:00] early'') =
     [\<lparr>lineTime = 60, text' = js ''early'', style = None\<rparr>,
      \<lparr>lineTime = 99, text' = js ''late'', style = None\<rparr>]"
proof -
  have a: "parseLrc [91, m1, m2, 58, s1, s2, 93] =
        [\<lparr>lineTime = (10 * digit_of m1 + digit_of m2) * 60 + (10 * digit_of s1 + digit_of s2),
          text' = [], style = None\<rparr>]"
    if d: "is_digit m1" "is_digit m2" "is_digit s1" "is_digit s2" for m1 m2 s1 s2
  proof -
    have g: "is_time_groups [m1, m2] [s1, s2]"
      using d by (simp add: is_time_groups_def is_fraction_def)
    have n: "10 \<notin> set [91, m1, m2, 58, s1, s2, 93]"
      using d by (auto simp: is_digit_def)
    have e: "timeRegex_exec [] = None" by simp
    from parse_line_tagged [OF e g, of "[]"]
    have "parse_line [91, m1, m2, 58, s1, s2, 93] =
        Some \<lparr>lineTime = tag_seconds [m1, m2] [s1, s2], text' = [], style = None\<rparr>"
      by (simp add: time_tag_def trim_Nil)
    with parseLrc_single [OF n] show ?thesis
      by (simp add: tag_seconds_whole [OF d])
  qed
  have r: "\<forall>n<100. parseLrc [91, 48, 48, 58, 48 + n div 10, 48 + n mod 10, 93] =
        [\<lparr>lineTime = of_nat n, text' = [], style = None\<rparr>]"
  proof (intro allI impI)
    fix n :: nat
    assume n: "n < 100"
    then have d: "is_digit 48" "is_digit (48 + n div 10)" "is_digit (48 + n mod 10)"
      by (simp_all add: is_digit_def)
    have v: "10 * of_nat (n div 10) + of_nat (n mod 10) = (of_nat n :: rat)"
    proof -
      have "(of_nat n :: rat) = of_nat (10 * (n div 10) + n mod 10)"
        by simp
      also have "\<dots> = 10 * of_nat (n div 10) + of_nat (n mod 10)"
        by (simp only: of_nat_add of_nat_mult of_nat_numeral)
      finally show ?thesis by (rule sym)
    qed
    show "parseLrc [91, 48, 48, 58, 48 + n div 10, 48 + n mod 10, 93] =
        [\<lparr>lineTime = of_nat n, text' = [], style = None\<rparr>]"
      using a [OF d(1) d(1) d(2) d(3)] by (simp add: digit_of_def v)
  qed
  have b: "parseLrc (js ''[00:99]'') = [\<lparr>lineTime = 99, text' = [], style = None\<rparr>]"
    "parseLrc (js ''[01:00]'') = [\<lparr>lineTime = 60, text' = [], style = None\<rparr>]"
    "parseLrc (js ''[00:99] late'' @ [10] @ js ''[01:00] early'') =
     [\<lparr>lineTime = 60, text' = js ''early'', style = None\<rparr>,
      \<lparr>lineTime = 99, text' = js ''late'', style = None\<rparr>]"
    by (simp_all add: eval_defs)
  from a have a': "is_digit m1 \<and> is_digit m2 \<and> is_digit s1 \<and> is_digit s2 \<longrightarrow>
      parseLrc [91, m1, m2, 58, s1, s2, 93] =
        [\<lparr>lineTime = (10 * digit_of m1 + digit_of m2) * 60 + (10 * digit_of s1 + digit_of s2),
          text' = [], style = None\<rparr>]"
    by blast
  from a' r b show ?thesis by (intro conjI)
qed

theorem parseLrc_seconds_unchecked_witness:
  "is_digit 48 \<and> is_digit 55 \<and>
   parseLrc [91, 48, 48, 58, 55, 55, 93] = [\<lparr>lineTime = 77, text' = [], style = None\<rparr>]"
proof -
  have d: "is_digit 48" "is_digit 55" by (simp_all add: is_digit_def)
  from parseLrc_seconds_unchecked [of 48 48 55 55, THEN conjunct1] d
  have "parseLrc [91, 48, 48, 58, 55, 55, 93] =
        [\<lparr>lineTime = (10 * digit_of 48 + digit_of 48) * 60 + (10 * digit_of 55 + digit_of 55),
          text' = [], style = None\<rparr>]"
    by blast
  with d show ?thesis by (simp add: digit_of_def)
qed

text \<open>
  C10.  The tag is found anywhere in the line, not only at its start.  Only the leftmost tag
  is taken out: the display text is what stands before and after it, trimmed (and without the
  annotation, when there is one), so that a later tag of the same line stays in the text.
  The time of the entry is that of the leftmost tag, as the program computes it in doubles
  (\<open>tag_seconds\<close>): 84.47800000000001, which is 1486152692660175 / 2 ^ 44, for \<open>[01:24.478]\<close>.
\<close>

theorem parseLrc_tag_anywhere:
  assumes "line \<in> set (split 10 lrcContent)"
    and "\<not> contains_time_tag pre" "is_time_groups g1 g2"
    and "line = pre @ time_tag g1 g2 @ post"
  shows "(\<not> has_annotation (trim (pre @ post)) \<longrightarrow>
            (\<exists>l\<in>set (parseLrc lrcContent). parse_line line = Some l \<and>
               l = \<lparr>lineTime = tag_seconds g1 g2, text' = trim (pre @ post), style = None\<rparr>)) \<and>
         (\<forall>a c b. trim (pre @ post) = a @ 123 # c @ 125 # b \<and> 123 \<notin> set a \<and> 125 \<notin> set c \<and>
                  (\<forall>x\<in>set c. \<not> is_line_terminator x) \<longrightarrow>
            (\<exists>l\<in>set (parseLrc lrcContent). parse_line line = Some l \<and>
               lineTime l = tag_seconds g1 g2 \<and> text' l = trim (a @ b))) \<and>
         parseLrc (js ''intro [00:01] hello [00:02] world'') =
           [\<lparr>lineTime = 1, text' = js ''intro  hello [00:02] world'', style = None\<rparr>] \<and>
         parseLrc (js ''la [01:24.478] hello [00:02] world'') =
           [\<lparr>lineTime = 1486152692660175 / 2 ^ 44, text' = js ''la  hello [00:02] world'',
             style = None\<rparr>] \<and>
         tag_seconds (js ''01'') (js ''24.478'') = 1486152692660175 / 2 ^ 44"
proof -
  note e = tagged_line_emitted [OF assms]
  have a: "\<not> has_annotation (trim (pre @ post)) \<longrightarrow>
            (\<exists>l\<in>set (parseLrc lrcContent). parse_line line = Some l \<and>
               l = \<lparr>lineTime = tag_seconds g1 g2, text' = trim (pre @ post), style = None\<rparr>)"
    using e styleRegex_exec_None_iff [of "trim (pre @ post)"] by auto
  have b: "\<exists>l\<in>set (parseLrc lrcContent). parse_line line = Some l \<and>
               lineTime l = tag_seconds g1 g2 \<and> text' l = trim (a @ b)"
    if "trim (pre @ post) = a @ 123 # c @ 125 # b" "123 \<notin> set a" "125 \<notin> set c"
      "\<forall>x\<in>set c. \<not> is_line_terminator x" for a c b
  proof -
    from that(2-4) have "styleRegex_exec (a @ 123 # c @ 125 # b) = Some (a, c, b)"
      by (rule styleRegex_exec_first)
    with e that(1) show ?thesis by auto
  qed
  have b': "\<forall>a c b. trim (pre @ post) = a @ 123 # c @ 125 # b \<and> 123 \<notin> set a \<and> 125 \<notin> set c \<and>
                  (\<forall>x\<in>set c. \<not> is_line_terminator x) \<longrightarrow>
            (\<exists>l\<in>set (parseLrc lrcContent). parse_line line = Some l \<and>
               lineTime l = tag_seconds g1 g2 \<and> text' l = trim (a @ b))"
    using b by blast
  have c: "parseLrc (js ''intro [00:01] hello [00:02] world'') =
           [\<lparr>lineTime = 1, text' = js ''intro  hello [00:02] world'', style = None\<rparr>]"
    "parseLrc (js ''la [01:24.478] hello [00:02] world'') =
           [\<lparr>lineTime = 1486152692660175 / 2 ^ 44, text' = js ''la  hello [00:02] world'',
             style = None\<rparr>]"
    by (simp_all add: eval_defs)
  have d: "tag_seconds (js ''01'') (js ''24.478'') = 1486152692660175 / 2 ^ 44"
    by (simp add: js_def tag_seconds_def seconds_value_def digits_value_def round_defs)
  from a b' c d show ?thesis by (intro conjI)
qed

theorem parseLrc_tag_anywhere_witness:
  "js ''intro [01:24.478] hello [00:02] world'' \<in> set (split 10 (js ''intro [01:24.478] hello [00:02] world'')) \<and>
   \<not> contains_time_tag (js ''intro '') \<and> is_time_groups (js ''01'') (js ''24.478'') \<and>
   js ''intro [01:24.478] hello [00:02] world'' =
     js ''intro '' @ time_tag (js ''01'') (js ''24.478'') @ js '' hello [00:02] world'' \<and>
   \<not> has_annotation (trim (js ''intro '' @ js '' hello [00:02] world'')) \<and>
   (\<exists>l\<in>set (parseLrc (js ''intro [01:24.478] hello [00:02] world'')).
      parse_line (js ''intro [01:24.478] hello [00:02] world'') = Some l \<and>
      l = \<lparr>lineTime = 1486152692660175 / 2 ^ 44, text' = js ''intro  hello [00:02] world'', style = None\<rparr>)"
proof -
  have h1: "js ''intro [01:24.478] hello [00:02] world'' \<in> set (split 10 (js ''intro [01:24.478] hello [00:02] world''))"
    by (simp add: js_def)
  have h2: "\<not> contains_time_tag (js ''intro '')"
    by (simp add: no_time_tag_iff js_def)
  have h3: "is_time_groups (js ''01'') (js ''24.478'')"
    by (simp add: js_def is_time_groups_def is_fraction_def is_digit_def)
  have h4: "js ''intro [01:24.478] hello [00:02] world'' =
     js ''intro '' @ time_tag (js ''01'') (js ''24.478'') @ js '' hello [00:02] world''"
    by (simp add: js_def time_tag_def)
  have t: "trim (js ''intro '' @ js '' hello [00:02] world'') = js ''intro  hello [00:02] world''"
    by (simp add: eval_defs)
  have "styleRegex_exec (js ''intro  hello [00:02] world'') = None"
    by (simp add: js_def)
  then have h5: "\<not> has_annotation (trim (js ''intro '' @ js '' hello [00:02] world''))"
    unfolding t by (simp add: styleRegex_exec_None_iff)
  have v: "tag_seconds (js ''01'') (js ''24.478'') = 1486152692660175 / 2 ^ 44"
    by (simp add: js_def tag_seconds_def seconds_value_def digits_value_def round_defs)
  from parseLrc_tag_anywhere [OF h1 h2 h3 h4, THEN conjunct1] h5
  have "\<exists>l\<in>set (parseLrc (js ''intro [01:24.478] hello [00:02] world'')).
      parse_line (js ''intro [01:24.478] hello [00:02] world'') = Some l \<and>
      l = \<lparr>lineTime = tag_seconds (js ''01'') (js ''24.478''),
           text' = trim (js ''intro '' @ js '' hello [00:02] world''), style = None\<rparr>"
    by (rule mp)
  then have "\<exists>l\<in>set (parseLrc (js ''intro [01:24.478] hello [00:02] world'')).
      parse_line (js ''intro [01:24.478] hello [00:02] world'') = Some l \<and>
      l = \<lparr>lineTime = 1486152692660175 / 2 ^ 44, text' = js ''intro  hello [00:02] world'', style = None\<rparr>"
    unfolding t v .
  with h1 h2 h3 h4 h5 show ?thesis by (intro conjI)
qed

end
